theory Spec2Isabelle
  imports Main "HOL-Library.AList" "HOL-Library.Char_ord" "HOL-Library.List_Lexorder"
begin

section \<open>showdeps: the data model\<close>

text \<open>
  The program is one Go file, \<^verbatim>\<open>showdeps.go\<close>. Go strings are byte sequences and are
  modelled as \<^typ>\<open>string\<close>; \<^verbatim>\<open>sort.Strings\<close> is \<^const>\<open>sort\<close> under the bytewise
  lexicographic order on \<^typ>\<open>string\<close>.

  A \<^verbatim>\<open>map[string][]string\<close> is an association list with distinct keys: the presence of a
  key matters (the output loop ranges over the keys), and so does the difference between
  an absent key and a key bound to the nil slice, which only \<^verbatim>\<open>range\<close> can see. Reading a
  key that is absent yields the nil slice, modelled as \<open>[]\<close>; every slice the program
  stores is either nil or the result of an \<^verbatim>\<open>append\<close>, so \<open>[]\<close> is exactly \<^verbatim>\<open>nil\<close>.

  A \<^verbatim>\<open>map[string]bool\<close> that only ever stores \<^verbatim>\<open>true\<close> is the list of its keys.
\<close>

type_synonym graph = "(string \<times> string list) list"

type_synonym strset = "string list"

definition lookup :: "graph \<Rightarrow> string \<Rightarrow> string list" where
  "lookup m k = (case map_of m k of None \<Rightarrow> [] | Some v \<Rightarrow> v)"

definition keys :: "graph \<Rightarrow> string list" where
  "keys m = map fst m"

definition set_add :: "string \<Rightarrow> strset \<Rightarrow> strset" where
  "set_add k m = (if k \<in> set m then m else m @ [k])"

text \<open>The fields of \<^verbatim>\<open>build.Package\<close> that the program reads.\<close>

record Package =
  ImportPath :: string
  Dir :: string
  Imports :: "string list"
  TestImports :: "string list"
  XTestImports :: "string list"
  GoFiles :: "string list"
  CgoFiles :: "string list"
  TestGoFiles :: "string list"
  XTestGoFiles :: "string list"

datatype ImportMode = FindOnly | ImportAll

text \<open>
  What the program takes from outside: the working directory, \<^verbatim>\<open>gotool.ImportPaths\<close>,
  \<^verbatim>\<open>build.Default.Import\<close>, and the order in which \<^verbatim>\<open>range\<close> visits the keys of a map,
  which Go leaves unspecified. \<^verbatim>\<open>Import\<close> returns a package and an error together, as in
  Go: on failure the package is still there and holds partial information.
\<close>

record env =
  Getwd :: "string + string"
  ImportPaths :: "string list \<Rightarrow> string list"
  Import :: "string \<Rightarrow> string \<Rightarrow> ImportMode \<Rightarrow> Package \<times> string option"
  range_order :: "string list \<Rightarrow> string list"

text \<open>The command-line flags, global variables in the source.\<close>

record flags =
  flag_noTestDeps :: bool
  flag_all :: bool
  flag_std :: bool
  flag_from :: bool
  flag_why :: string
  flag_files :: bool

text \<open>
  \<open>CannotFind p e\<close> is \<^verbatim>\<open>fmt.Errorf("cannot find %q: %v", p, e)\<close>; the three fatal values
  are the three \<^verbatim>\<open>log.Fatalf\<close> calls of \<^verbatim>\<open>main\<close>, and \<open>Panic\<close> is the panic of
  \<^verbatim>\<open>regexp.MustCompile\<close>.
\<close>

datatype error = BuildError string | CannotFind string error

datatype fatal =
    FatalGetwd string
  | FatalCannotFind string error
  | FatalCannotFindImports string error
  | Panic

text \<open>
  One output line: \<open>PkgLine r\<close> is \<^verbatim>\<open>Fprintln(w, r)\<close>, \<open>FromLine r from\<close> is
  \<^verbatim>\<open>Fprintf(w, "%s %s\n", r, strings.Join(from, " "))\<close>, and \<open>FileLine dir f\<close> is
  \<^verbatim>\<open>Fprintln(w, filepath.Join(dir, f))\<close>.
\<close>

datatype out_line = PkgLine string | FromLine string "string list" | FileLine string string

section \<open>uniq\<close>

text \<open>
  \<^verbatim>\<open>uniq\<close> overwrites the slice it ranges over. \<open>uniq_loop ss i j prev\<close> is the state at
  the head of the loop, \<open>i\<close> the index \<^verbatim>\<open>range\<close> has reached.
\<close>

function uniq_loop :: "string list \<Rightarrow> nat \<Rightarrow> nat \<Rightarrow> string \<Rightarrow> string list" where
  "uniq_loop ss i j prev =
     (if i < length ss then
        (let s = ss ! i in
         if s \<noteq> prev then uniq_loop (ss[j := s]) (i + 1) (j + 1) s
         else uniq_loop ss (i + 1) j prev)
      else take j ss)"
  by pat_completeness auto
termination
  by (relation "measure (\<lambda>(ss, i, j, prev). length ss - i)") auto

declare uniq_loop.simps [simp del]

definition uniq :: "string list \<Rightarrow> string list" where
  "uniq ss = uniq_loop ss 0 0 []"

text \<open>
  What the loop computes, without the slice: the elements that differ from the one kept
  before them, \<open>prev\<close> being the last one kept.
\<close>

fun squeeze :: "string \<Rightarrow> string list \<Rightarrow> string list" where
  "squeeze prev [] = []"
| "squeeze prev (s # ss) = (if s \<noteq> prev then s # squeeze s ss else squeeze prev ss)"

section \<open>markImporters\<close>

text \<open>
  The recursion of \<^verbatim>\<open>markImporters\<close> is bounded by a depth budget; \<open>None\<close> means the
  budget ran out. The test \<^verbatim>\<open>marked[pkg]\<close> comes first, as in the source.
\<close>

fun markImporters :: "nat \<Rightarrow> string \<Rightarrow> graph \<Rightarrow> strset \<Rightarrow> strset option"
  and markImporters_range :: "nat \<Rightarrow> string list \<Rightarrow> graph \<Rightarrow> strset \<Rightarrow> strset option" where
  "markImporters n pkg allPkgs marked =
     (if pkg \<in> set marked then Some marked
      else (case n of
              0 \<Rightarrow> None
            | Suc k \<Rightarrow> markImporters_range k (lookup allPkgs pkg) allPkgs (set_add pkg marked)))"
| "markImporters_range n [] allPkgs marked = Some marked"
| "markImporters_range n (imp # rest) allPkgs marked =
     (case markImporters n imp allPkgs marked of
        None \<Rightarrow> None
      | Some marked' \<Rightarrow> markImporters_range n rest allPkgs marked')"

declare markImporters.simps(1) [simp del]

section \<open>isStdlib, imports, findImports\<close>

definition isStdlib :: "string \<Rightarrow> bool" where
  "isStdlib pkg = (CHR ''.'' \<notin> set (takeWhile (\<lambda>c. c \<noteq> CHR ''/'') pkg))"

fun addPackages :: "flags \<Rightarrow> strset \<Rightarrow> string list \<Rightarrow> strset" where
  "addPackages F m [] = m"
| "addPackages F m (s # ss) =
     (if flag_std F \<or> \<not> isStdlib s then addPackages F (set_add s m) ss
      else addPackages F m ss)"

definition imports_of :: "flags \<Rightarrow> Package \<Rightarrow> bool \<Rightarrow> strset" where
  "imports_of F pkg isRoot =
     (let imps = addPackages F [] (Imports pkg) in
      if isRoot \<and> \<not> flag_noTestDeps F
      then addPackages F (addPackages F imps (TestImports pkg)) (XTestImports pkg)
      else imps)"

text \<open>
  \<^verbatim>\<open>findImports\<close>, again with a depth budget. \<open>findImports_range\<close> is the body of its
  \<^verbatim>\<open>for name := range imports(...)\<close> loop, \<open>path\<close> being \<^verbatim>\<open>pkg.ImportPath\<close>. An error ends
  the loop at once; \<^verbatim>\<open>main\<close> never looks at the map again after an error.
\<close>

fun findImports ::
    "env \<Rightarrow> string \<Rightarrow> flags \<Rightarrow> nat \<Rightarrow> string \<Rightarrow> graph \<Rightarrow> strset \<Rightarrow> (error + graph) option"
  and findImports_range ::
    "env \<Rightarrow> string \<Rightarrow> flags \<Rightarrow> nat \<Rightarrow> string \<Rightarrow> string list \<Rightarrow> graph \<Rightarrow> strset
       \<Rightarrow> (error + graph) option" where
  "findImports E cwd F n packageName allPkgs rootPkgs =
     (if packageName = ''C'' then Some (Inr allPkgs)
      else (case n of
              0 \<Rightarrow> None
            | Suc k \<Rightarrow>
                (case Import E packageName cwd ImportAll of
                   (pkg, Some err) \<Rightarrow> Some (Inl (CannotFind packageName (BuildError err)))
                 | (pkg, None) \<Rightarrow>
                     findImports_range E cwd F k (ImportPath pkg)
                       (range_order E (imports_of F pkg (ImportPath pkg \<in> set rootPkgs)))
                       (AList.update (ImportPath pkg) (lookup allPkgs (ImportPath pkg)) allPkgs)
                       rootPkgs)))"
| "findImports_range E cwd F n path [] allPkgs rootPkgs = Some (Inr allPkgs)"
| "findImports_range E cwd F n path (name # rest) allPkgs rootPkgs =
     (if \<not> flag_std F \<and> isStdlib name then findImports_range E cwd F n path rest allPkgs rootPkgs
      else
        (let alreadyDone = (lookup allPkgs name \<noteq> []);
             allPkgs' = AList.update name (lookup allPkgs name @ [path]) allPkgs
         in if flag_all F \<and> \<not> alreadyDone then
              (case findImports E cwd F n name allPkgs' rootPkgs of
                 None \<Rightarrow> None
               | Some (Inl err) \<Rightarrow> Some (Inl err)
               | Some (Inr allPkgs'') \<Rightarrow> findImports_range E cwd F n path rest allPkgs'' rootPkgs)
            else findImports_range E cwd F n path rest allPkgs' rootPkgs))"

declare findImports.simps(1) [simp del]

section \<open>matchPattern\<close>

text \<open>
  \<^verbatim>\<open>regexp.QuoteMeta\<close> puts a backslash before each of the bytes \<^verbatim>\<open>\.+*?()|[]{}^$\<close>.
\<close>

definition backslash :: char where
  "backslash = CHR 0x5C"

definition newline :: char where
  "newline = CHR 0x0A"

definition specialBytes :: "char list" where
  "specialBytes = backslash # ''.+*?()|[]{}^$''"

definition QuoteMeta :: "string \<Rightarrow> string" where
  "QuoteMeta s = concat (map (\<lambda>c. if c \<in> set specialBytes then [backslash, c] else [c]) s)"

text \<open>
  \<^verbatim>\<open>strings.Replace(s, old, new, -1)\<close>: every non-overlapping occurrence of \<open>old\<close>, from
  the left. An empty \<open>old\<close> matches before every byte and at the end.
\<close>

function Replace :: "string \<Rightarrow> string \<Rightarrow> string \<Rightarrow> string" where
  "Replace [] old new = (if old = [] then new else [])"
| "Replace (c # s) old new =
     (if old = [] then new @ c # Replace s old new
      else if take (length old) (c # s) = old
           then new @ Replace (drop (length old) (c # s)) old new
      else c # Replace s old new)"
  by pat_completeness auto
termination
  by (relation "measure (\<lambda>(s, old, new). length s)") auto

definition HasSuffix :: "string \<Rightarrow> string \<Rightarrow> bool" where
  "HasSuffix s suffix =
     (length s \<ge> length suffix \<and> drop (length s - length suffix) s = suffix)"

text \<open>
  The regular expressions that \<^verbatim>\<open>matchPattern\<close> hands to \<^verbatim>\<open>regexp.MustCompile\<close> are built
  from four pieces of RE2 syntax: an escaped special byte, an ordinary byte, \<^verbatim>\<open>.*\<close> and the
  group \<^verbatim>\<open>(/.*)?\<close>, between \<^verbatim>\<open>^\<close> and \<^verbatim>\<open>$\<close>. \<open>MustCompile\<close> parses exactly that fragment
  and is \<open>None\<close> on anything else. Without flags, \<^verbatim>\<open>.\<close> matches any
  character but the newline, and \<^verbatim>\<open>^\<close> and \<^verbatim>\<open>$\<close> match only at the two ends of the text,
  so \<^verbatim>\<open>MatchString\<close> on such an expression is a match of the whole text. The model works
  on bytes, which agrees with Go on valid UTF-8.
\<close>

datatype rx = Lit char | DotStar | OptSlashDotStar

fun parse_rx :: "string \<Rightarrow> rx list option" where
  "parse_rx [] = Some []"
| "parse_rx (c # s) =
     (if c = backslash then
        (case s of
           [] \<Rightarrow> None
         | d # s' \<Rightarrow> if d \<in> set specialBytes then map_option ((#) (Lit d)) (parse_rx s') else None)
      else if c = CHR ''.'' then
        (case s of
           [] \<Rightarrow> None
         | d # s' \<Rightarrow> if d = CHR ''*'' then map_option ((#) DotStar) (parse_rx s') else None)
      else if c = CHR ''('' then
        (if take 5 s = ''/.*)?'' then map_option ((#) OptSlashDotStar) (parse_rx (drop 5 s))
         else None)
      else if c \<in> set specialBytes then None
      else map_option ((#) (Lit c)) (parse_rx s))"

definition MustCompile :: "string \<Rightarrow> rx list option" where
  "MustCompile s =
     (case s of
        [] \<Rightarrow> None
      | c # body \<Rightarrow>
          if c = CHR ''^'' \<and> body \<noteq> [] \<and> last body = CHR ''$'' then parse_rx (butlast body)
          else None)"

fun rx_weight :: "rx \<Rightarrow> nat" where
  "rx_weight (Lit c) = 1"
| "rx_weight DotStar = 1"
| "rx_weight OptSlashDotStar = 3"

function MatchString :: "rx list \<Rightarrow> string \<Rightarrow> bool" where
  "MatchString [] s = (s = [])"
| "MatchString (Lit c # r) s = (case s of [] \<Rightarrow> False | x # xs \<Rightarrow> x = c \<and> MatchString r xs)"
| "MatchString (DotStar # r) s =
     (MatchString r s \<or>
      (case s of [] \<Rightarrow> False | x # xs \<Rightarrow> x \<noteq> newline \<and> MatchString (DotStar # r) xs))"
| "MatchString (OptSlashDotStar # r) s =
     (MatchString r s \<or> MatchString (Lit (CHR ''/'') # DotStar # r) s)"
  by pat_completeness auto
termination
  by (relation "measure (\<lambda>(r, s). sum_list (map rx_weight r) + length s)") auto

definition matchPattern :: "string \<Rightarrow> (string \<Rightarrow> bool) option" where
  "matchPattern pattern =
     (let re = QuoteMeta pattern;
          re = Replace re [backslash, CHR ''.'', backslash, CHR ''.'', backslash, CHR ''.''] ''.*'';
          re = (if HasSuffix re ''/.*'' then take (length re - length ''/.*'') re @ ''(/.*)?''
                else re)
      in case MustCompile (''^'' @ re @ ''$'') of
           None \<Rightarrow> None
         | Some reg \<Rightarrow> Some (\<lambda>name. MatchString reg name))"

section \<open>main\<close>

fun showFiles :: "Package \<Rightarrow> string list \<Rightarrow> out_line list" where
  "showFiles pkg [] = []"
| "showFiles pkg (f # fs) = FileLine (Dir pkg) f # showFiles pkg fs"

text \<open>The loop that fills \<^verbatim>\<open>rootPkgs\<close>.\<close>

fun rootPkgs_range :: "env \<Rightarrow> string \<Rightarrow> string list \<Rightarrow> strset \<Rightarrow> fatal + strset" where
  "rootPkgs_range E cwd [] rootPkgs = Inr rootPkgs"
| "rootPkgs_range E cwd (pkg # rest) rootPkgs =
     (case Import E pkg cwd FindOnly of
        (p, Some err) \<Rightarrow> Inl (FatalCannotFind pkg (BuildError err))
      | (p, None) \<Rightarrow> rootPkgs_range E cwd rest (set_add (ImportPath p) rootPkgs))"

text \<open>The loop that calls \<^verbatim>\<open>findImports\<close> on every root.\<close>

fun allPkgs_range ::
    "env \<Rightarrow> string \<Rightarrow> flags \<Rightarrow> nat \<Rightarrow> string list \<Rightarrow> graph \<Rightarrow> strset \<Rightarrow> (fatal + graph) option" where
  "allPkgs_range E cwd F n [] allPkgs rootPkgs = Some (Inr allPkgs)"
| "allPkgs_range E cwd F n (pkg # rest) allPkgs rootPkgs =
     (case findImports E cwd F n pkg allPkgs rootPkgs of
        None \<Rightarrow> None
      | Some (Inl err) \<Rightarrow> Some (Inl (FatalCannotFindImports pkg err))
      | Some (Inr allPkgs') \<Rightarrow> allPkgs_range E cwd F n rest allPkgs' rootPkgs)"

text \<open>\<^verbatim>\<open>for pkg := range rootPkgs { delete(allPkgs, pkg) }\<close>\<close>

definition delete_roots :: "env \<Rightarrow> strset \<Rightarrow> graph \<Rightarrow> graph" where
  "delete_roots E rootPkgs allPkgs = fold AList.delete (range_order E rootPkgs) allPkgs"

text \<open>\<^verbatim>\<open>for pkg := range allPkgs { if whyMatch(pkg) { markImporters(pkg, allPkgs, marked) } }\<close>\<close>

fun mark_range ::
    "nat \<Rightarrow> (string \<Rightarrow> bool) \<Rightarrow> string list \<Rightarrow> graph \<Rightarrow> strset \<Rightarrow> strset option" where
  "mark_range n whyMatch [] allPkgs marked = Some marked"
| "mark_range n whyMatch (pkg # rest) allPkgs marked =
     (if whyMatch pkg then
        (case markImporters n pkg allPkgs marked of
           None \<Rightarrow> None
         | Some marked' \<Rightarrow> mark_range n whyMatch rest allPkgs marked')
      else mark_range n whyMatch rest allPkgs marked)"

text \<open>\<^verbatim>\<open>for pkg := range allPkgs { if !marked[pkg] { delete(allPkgs, pkg) } }\<close>\<close>

definition delete_unmarked :: "env \<Rightarrow> strset \<Rightarrow> graph \<Rightarrow> graph" where
  "delete_unmarked E marked allPkgs =
     fold (\<lambda>pkg m. if pkg \<notin> set marked then AList.delete pkg m else m)
       (range_order E (keys allPkgs)) allPkgs"

text \<open>The block \<^verbatim>\<open>if !*files { ... }\<close> of \<^verbatim>\<open>main\<close>.\<close>

definition prune ::
    "env \<Rightarrow> flags \<Rightarrow> nat \<Rightarrow> (string \<Rightarrow> bool) option \<Rightarrow> strset \<Rightarrow> graph \<Rightarrow> graph option" where
  "prune E F n whyMatch rootPkgs allPkgs =
     (if \<not> flag_files F then
        (let allPkgs = delete_roots E rootPkgs allPkgs in
         case whyMatch of
           None \<Rightarrow> Some allPkgs
         | Some wm \<Rightarrow>
             (case mark_range n wm (range_order E (keys allPkgs)) allPkgs [] of
                None \<Rightarrow> None
              | Some marked \<Rightarrow> Some (delete_unmarked E marked allPkgs)))
      else Some allPkgs)"

text \<open>The body of the output loop, for one name \<open>r\<close>.\<close>

definition render_one :: "env \<Rightarrow> string \<Rightarrow> flags \<Rightarrow> strset \<Rightarrow> graph \<Rightarrow> string \<Rightarrow> out_line list" where
  "render_one E cwd F rootPkgs allPkgs r =
     (if flag_files F then
        (let pkg = fst (Import E r cwd ImportAll) in
         showFiles pkg (GoFiles pkg) @ showFiles pkg (CgoFiles pkg) @
         (if ImportPath pkg \<in> set rootPkgs \<and> \<not> flag_noTestDeps F
          then showFiles pkg (TestGoFiles pkg) @ showFiles pkg (XTestGoFiles pkg)
          else []))
      else if flag_from F then [FromLine r (uniq (sort (lookup allPkgs r)))]
      else [PkgLine r])"

definition render :: "env \<Rightarrow> string \<Rightarrow> flags \<Rightarrow> strset \<Rightarrow> graph \<Rightarrow> out_line list" where
  "render E cwd F rootPkgs allPkgs =
     concat (map (render_one E cwd F rootPkgs allPkgs) (sort (range_order E (keys allPkgs))))"

text \<open>
  The block \<^verbatim>\<open>if *why != "" { ... }\<close>: the flags it changes and \<^verbatim>\<open>whyMatch\<close>, or \<open>None\<close>
  when \<^verbatim>\<open>regexp.MustCompile\<close> panics.
\<close>

definition why_flags :: "flags \<Rightarrow> (flags \<times> (string \<Rightarrow> bool) option) option" where
  "why_flags F =
     (if flag_why F \<noteq> [] then
        (case matchPattern (flag_why F) of
           None \<Rightarrow> None
         | Some wm \<Rightarrow>
             Some (F\<lparr>flag_all := True, flag_from := True,
                     flag_std := (if isStdlib (flag_why F) then True else flag_std F)\<rparr>,
                   Some wm))
      else Some (F, None))"

text \<open>
  \<^verbatim>\<open>main\<close>, from the parsed flags and arguments to the lines written to standard output.
  \<open>Inl\<close> is an exit through \<^verbatim>\<open>log.Fatalf\<close> or a panic, before anything is written.
\<close>

definition main :: "env \<Rightarrow> flags \<Rightarrow> string list \<Rightarrow> nat \<Rightarrow> (fatal + out_line list) option" where
  "main E F0 args n =
     (let pkgs = (if args = [] then [''.''] else args) in
      case Getwd E of
        Inl err \<Rightarrow> Some (Inl (FatalGetwd err))
      | Inr cwd \<Rightarrow>
          (case why_flags F0 of
             None \<Rightarrow> Some (Inl Panic)
           | Some (F, whyMatch) \<Rightarrow>
               (let pkgs = ImportPaths E pkgs in
                case rootPkgs_range E cwd pkgs [] of
                  Inl f \<Rightarrow> Some (Inl f)
                | Inr rootPkgs \<Rightarrow>
                    (case allPkgs_range E cwd F n pkgs [] rootPkgs of
                       None \<Rightarrow> None
                     | Some (Inl f) \<Rightarrow> Some (Inl f)
                     | Some (Inr allPkgs) \<Rightarrow>
                         (case prune E F n whyMatch rootPkgs allPkgs of
                            None \<Rightarrow> None
                          | Some allPkgs' \<Rightarrow>
                              Some (Inr (render E cwd F rootPkgs allPkgs')))))))"

section \<open>The importer relation\<close>

text \<open>
  \<open>(p, q) \<in> importer_rel g\<close> says that \<open>q\<close> is listed as an importer of \<open>p\<close>. The ancestors
  of a target predicate are the paths reached from a key that satisfies it: the key itself,
  its importers, their importers, and so on. \<open>nodes g\<close> lists every path that occurs in
  \<open>g\<close>, as a key or as an importer.
\<close>

definition importer_rel :: "graph \<Rightarrow> (string \<times> string) set" where
  "importer_rel g = {(p, q). q \<in> set (lookup g p)}"

definition nodes :: "graph \<Rightarrow> string list" where
  "nodes g = keys g @ concat (map snd g)"

definition ancestors :: "graph \<Rightarrow> (string \<Rightarrow> bool) \<Rightarrow> string set" where
  "ancestors g isTarget =
     {q. \<exists>t \<in> set (keys g). isTarget t \<and> (t, q) \<in> (importer_rel g)\<^sup>*}"

text \<open>
  \<open>(q, name) \<in> deps E cwd F rootPkgs\<close> says that the traversal, when it processes \<open>q\<close>,
  follows the import \<open>name\<close>: \<open>q\<close> resolves and \<open>name\<close> is in its effective import set.
\<close>

definition deps :: "env \<Rightarrow> string \<Rightarrow> flags \<Rightarrow> strset \<Rightarrow> (string \<times> string) set" where
  "deps E cwd F rootPkgs =
     {(q, name). q \<noteq> ''C'' \<and>
        (\<exists>pkg. Import E q cwd ImportAll = (pkg, None) \<and>
           name \<in> set (imports_of F pkg (ImportPath pkg \<in> set rootPkgs)))}"

text \<open>
  \<open>followed E cwd F rootPkgs h x\<close> says that \<open>x\<close> has been processed with success as far as
  the map \<open>h\<close> shows: \<open>x\<close> is \<open>C\<close>, or \<open>x\<close> resolves and is recorded as an importer of each
  import in its effective import set.
\<close>

definition followed :: "env \<Rightarrow> string \<Rightarrow> flags \<Rightarrow> strset \<Rightarrow> graph \<Rightarrow> string \<Rightarrow> bool" where
  "followed E cwd F rootPkgs h x =
     (x = ''C'' \<or>
      (snd (Import E x cwd ImportAll) = None \<and>
       (let pkg = fst (Import E x cwd ImportAll) in
        \<forall>name \<in> set (imports_of F pkg (ImportPath pkg \<in> set rootPkgs)).
          ImportPath pkg \<in> set (lookup h name))))"

text \<open>
  The order in which the specification puts the two steps of \<^verbatim>\<open>main\<close>: the closure on the
  whole graph first, the roots deleted afterwards. It is here to be compared with
  \<^const>\<open>prune\<close>, which is the order of the source.
\<close>

definition prune_claimed ::
    "env \<Rightarrow> flags \<Rightarrow> nat \<Rightarrow> (string \<Rightarrow> bool) option \<Rightarrow> strset \<Rightarrow> graph \<Rightarrow> graph option" where
  "prune_claimed E F n whyMatch rootPkgs allPkgs =
     (if \<not> flag_files F then
        (case whyMatch of
           None \<Rightarrow> Some (delete_roots E rootPkgs allPkgs)
         | Some wm \<Rightarrow>
             (case mark_range n wm (range_order E (keys allPkgs)) allPkgs [] of
                None \<Rightarrow> None
              | Some marked \<Rightarrow> Some (delete_roots E rootPkgs (delete_unmarked E marked allPkgs))))
      else Some allPkgs)"


section \<open>Glob patterns\<close>

text \<open>
  The pattern language as its comment states it: \<^verbatim>\<open>...\<close> stands for any string and there is
  no other special syntax. A pattern is read from the left, three dots at a time; a token
  is an ordinary character or the wildcard. \<open>glob_match excl ts s\<close> says that the whole of \<open>s\<close>
  matches the tokens \<open>ts\<close>, a character matching itself and the wildcard any substring that
  holds none of the characters \<open>excl\<close>. With \<open>excl = []\<close> the wildcard matches any string.
\<close>

datatype gtok = GChar char | GWild

fun glob_tokens :: "string \<Rightarrow> gtok list" where
  "glob_tokens (a # b # c # s) =
     (if a = CHR ''.'' \<and> b = CHR ''.'' \<and> c = CHR ''.'' then GWild # glob_tokens s
      else GChar a # glob_tokens (b # c # s))"
| "glob_tokens (a # s) = GChar a # glob_tokens s"
| "glob_tokens [] = []"

fun glob_match :: "char list \<Rightarrow> gtok list \<Rightarrow> string \<Rightarrow> bool" where
  "glob_match excl [] s = (s = [])"
| "glob_match excl (GChar c # ts) s = (case s of [] \<Rightarrow> False | x # xs \<Rightarrow> x = c \<and> glob_match excl ts xs)"
| "glob_match excl (GWild # ts) s =
     (\<exists>k \<in> {..length s}. set (take k s) \<inter> set excl = {} \<and> glob_match excl ts (drop k s))"

text \<open>
  The pieces of regular expression and the parsed items that a token stands for, the text
  that \<^verbatim>\<open>strings.Replace\<close> looks for, and the characters of a token.
\<close>

fun re_of_token :: "gtok \<Rightarrow> string" where
  "re_of_token (GChar c) = (if c \<in> set specialBytes then [backslash, c] else [c])"
| "re_of_token GWild = ''.*''"

fun rx_of_token :: "gtok \<Rightarrow> rx" where
  "rx_of_token (GChar c) = Lit c"
| "rx_of_token GWild = DotStar"

definition dots3 :: string where
  "dots3 = [backslash, CHR ''.'', backslash, CHR ''.'', backslash, CHR ''.'']"

fun untok :: "gtok \<Rightarrow> string" where
  "untok (GChar c) = [c]"
| "untok GWild = ''...''"

section \<open>A small module set\<close>

text \<open>
  Seven packages, used to run the definitions: \<open>x.io/r1\<close> imports \<open>x.io/a\<close> and \<open>fmt\<close> and
  has the test import \<open>x.io/t\<close>; \<open>x.io/r2\<close> imports \<open>x.io/r1\<close>; \<open>x.io/a\<close> imports \<open>x.io/b\<close>
  and \<open>C\<close>; \<open>x.io/bad\<close> imports \<open>x.io/missing\<close>. Any other path is not found.
\<close>

definition pkg0 :: "string \<Rightarrow> string list \<Rightarrow> string list \<Rightarrow> Package" where
  "pkg0 p imps timps =
     \<lparr>ImportPath = p, Dir = ''/src/'' @ p, Imports = imps, TestImports = timps,
      XTestImports = [], GoFiles = [''a.go''], CgoFiles = [], TestGoFiles = [''a_test.go''],
      XTestGoFiles = []\<rparr>"

definition partial0 :: "string \<Rightarrow> Package" where
  "partial0 p =
     \<lparr>ImportPath = p, Dir = [], Imports = [], TestImports = [], XTestImports = [],
      GoFiles = [], CgoFiles = [], TestGoFiles = [], XTestGoFiles = []\<rparr>"

definition Import0 :: "string \<Rightarrow> string \<Rightarrow> ImportMode \<Rightarrow> Package \<times> string option" where
  "Import0 p cwd mode =
     (if p = ''x.io/r1'' then (pkg0 p [''x.io/a'', ''fmt''] [''x.io/t''], None)
      else if p = ''x.io/r2'' then (pkg0 p [''x.io/r1''] [], None)
      else if p = ''x.io/a'' then (pkg0 p [''x.io/b'', ''C''] [], None)
      else if p = ''x.io/b'' \<or> p = ''x.io/t'' \<or> p = ''fmt'' then (pkg0 p [] [], None)
      else if p = ''x.io/bad'' then (pkg0 p [''x.io/missing''] [], None)
      else (partial0 p, Some ''not found''))"

definition env0 :: env where
  "env0 = \<lparr>Getwd = Inr ''/w'', ImportPaths = (\<lambda>pkgs. pkgs), Import = Import0,
            range_order = (\<lambda>ks. ks)\<rparr>"

definition flags0 :: flags where
  "flags0 = \<lparr>flag_noTestDeps = False, flag_all = False, flag_std = False, flag_from = False,
              flag_why = [], flag_files = False\<rparr>"



text \<open>
  The map that \<^verbatim>\<open>findImports\<close> builds for the roots \<open>x.io/b\<close> and \<open>x.io/r1\<close> with \<^verbatim>\<open>-a\<close>.
\<close>

definition graph0 :: graph where
  "graph0 = [(''x.io/b'', [''x.io/a'']), (''x.io/r1'', []), (''x.io/a'', [''x.io/r1'']),
             (''x.io/t'', [''x.io/r1''])]"

text \<open>
  The map that \<^verbatim>\<open>findImports\<close> builds for the root \<open>x.io/r1\<close> with \<^verbatim>\<open>-a\<close>.
\<close>

definition graph1 :: graph where
  "graph1 = [(''x.io/r1'', []), (''x.io/a'', [''x.io/r1'']), (''x.io/b'', [''x.io/a'']),
             (''x.io/t'', [''x.io/r1''])]"

section \<open>Properties of uniq and of the lines of from mode\<close>

lemmas run0 = env0_def flags0_def Import0_def pkg0_def set_add_def imports_of_def isStdlib_def
  lookup_def findImports.simps(1) eval_nat_numeral


lemma uniq_loop_squeeze:
  "j \<le> i \<Longrightarrow> i \<le> length ss \<Longrightarrow> uniq_loop ss i j prev = take j ss @ squeeze prev (drop i ss)"
proof (induction ss i j prev rule: uniq_loop.induct)
  case (1 ss i j prev)
  show ?case
  proof (cases "i < length ss")
    case False
    then have "uniq_loop ss i j prev = take j ss"
      by (subst uniq_loop.simps) simp
    with False "1.prems" show ?thesis by simp
  next
    case True
    then have d: "drop i ss = ss ! i # drop (Suc i) ss"
      by (simp add: Cons_nth_drop_Suc)
    show ?thesis
    proof (cases "ss ! i = prev")
      case True
      with \<open>i < length ss\<close> "1.IH"(2) "1.prems" d show ?thesis
        by (simp add: uniq_loop.simps [of ss i j prev])
    next
      case False
      have "uniq_loop ss i j prev = uniq_loop (ss[j := ss ! i]) (i + 1) (j + 1) (ss ! i)"
        using False \<open>i < length ss\<close> by (simp add: uniq_loop.simps [of ss i j prev] Let_def)
      also have "\<dots> = take (j + 1) (ss[j := ss ! i]) @
                       squeeze (ss ! i) (drop (i + 1) (ss[j := ss ! i]))"
        using "1.IH"(1) [OF \<open>i < length ss\<close> refl False] "1.prems" \<open>i < length ss\<close> by simp
      also have "take (j + 1) (ss[j := ss ! i]) = take j ss @ [ss ! i]"
        using "1.prems" \<open>i < length ss\<close> by (simp add: take_Suc_conv_app_nth)
      also have "drop (i + 1) (ss[j := ss ! i]) = drop (Suc i) ss"
        using "1.prems" by simp
      finally show ?thesis using d False by simp
    qed
  qed
qed

lemma uniq_squeeze: "uniq ss = squeeze [] ss"
  by (simp add: uniq_def uniq_loop_squeeze)

lemma squeeze_sorted:
  "sorted xs \<Longrightarrow> \<forall>x\<in>set xs. prev \<le> x \<Longrightarrow>
   sorted_wrt (<) (squeeze prev xs) \<and> set (squeeze prev xs) = set xs - {prev}"
proof (induction xs arbitrary: prev)
  case Nil
  then show ?case by simp
next
  case (Cons x xs)
  show ?case
  proof (cases "x = prev")
    case True
    with Cons show ?thesis by auto
  next
    case False
    have ih: "sorted_wrt (<) (squeeze x xs) \<and> set (squeeze x xs) = set xs - {x}"
      using Cons.IH [of x] Cons.prems by simp
    have "prev < x" using False Cons.prems by auto
    with ih False Cons.prems show ?thesis by auto
  qed
qed

lemma uniq_sort:
  "sorted_wrt (<) (uniq (sort xs)) \<and> set (uniq (sort xs)) = set xs - {[]}"
  using squeeze_sorted [of "sort xs" "[]"] by (simp add: uniq_squeeze)

lemma showFiles_no_FromLine: "FromLine r imps \<notin> set (showFiles p fs)"
  by (induction fs) auto

text \<open>
  C9. In from mode every line is \<open>FromLine r imps\<close>, and on every such line of the output
  the importers \<open>imps\<close> are in ascending order and without duplicates, whatever the lists
  stored in the map hold: they are the distinct non-empty strings of the list stored for
  \<open>r\<close>.
\<close>

theorem from_lines_sorted_distinct:
  assumes "FromLine r imps \<in> set (render E cwd F rootPkgs allPkgs)"
  shows "sorted imps \<and> distinct imps \<and> set imps = set (lookup allPkgs r) - {[]}"
proof -
  from assms obtain k where "FromLine r imps \<in> set (render_one E cwd F rootPkgs allPkgs k)"
    by (auto simp: render_def)
  then have "imps = uniq (sort (lookup allPkgs r))"
    by (auto simp: render_one_def Let_def showFiles_no_FromLine split: if_splits)
  then show ?thesis
    using uniq_sort [of "lookup allPkgs r"] strict_sorted_iff
    by (auto simp: strict_sorted_imp_sorted)
qed

theorem from_lines_sorted_distinct_witness:
  "FromLine ''x.io/a'' [''x.io/r1'', ''x.io/r2'']
     \<in> set (render env0 ''/w'' (flags0\<lparr>flag_from := True\<rparr>) []
              [(''x.io/a'', [''x.io/r2'', ''x.io/r1'', ''x.io/r2''])])
   \<and> sorted [''x.io/r1'', ''x.io/r2''] \<and> distinct [''x.io/r1'', ''x.io/r2'']"
proof -
  have h: "FromLine ''x.io/a'' [''x.io/r1'', ''x.io/r2'']
     \<in> set (render env0 ''/w'' (flags0\<lparr>flag_from := True\<rparr>) []
              [(''x.io/a'', [''x.io/r2'', ''x.io/r1'', ''x.io/r2''])])"
    by (simp add: render_def render_one_def env0_def flags0_def keys_def lookup_def
        uniq_squeeze)
  from from_lines_sorted_distinct [OF h] h show ?thesis by simp
qed

section \<open>markImporters computes the ancestors\<close>

lemma set_set_add [simp]: "set (set_add k m) = insert k (set m)"
  by (auto simp: set_add_def)

lemma lookup_in_nodes: "q \<in> set (lookup g p) \<Longrightarrow> q \<in> set (nodes g)"
proof -
  assume a: "q \<in> set (lookup g p)"
  then obtain v where "map_of g p = Some v" "q \<in> set v"
    by (cases "map_of g p") (auto simp: lookup_def)
  then have "(p, v) \<in> set g" by (simp add: map_of_SomeD)
  with \<open>q \<in> set v\<close> show ?thesis by (force simp: nodes_def)
qed

lemma markImporters_grows:
  "markImporters n pkg g marked = Some marked' \<Longrightarrow> set marked \<subseteq> set marked'"
  "markImporters_range n imps g marked = Some marked' \<Longrightarrow> set marked \<subseteq> set marked'"
proof (induction n pkg g marked and n imps g marked arbitrary: marked' and marked'
    rule: markImporters_markImporters_range.induct)
  case (1 n pkg allPkgs marked)
  then show ?case by (auto simp: markImporters.simps(1) split: if_splits nat.splits)
next
  case (2 n allPkgs marked)
  then show ?case by simp
next
  case (3 n imp rest allPkgs marked)
  then show ?case by (auto split: option.splits)
qed


lemma importer_rel_Image [simp]: "importer_rel g `` {p} = set (lookup g p)"
  by (auto simp: importer_rel_def)

lemma markImporters_sound:
  "markImporters n pkg g marked = Some marked' \<Longrightarrow>
     pkg \<in> set marked' \<and> set marked' \<subseteq> set marked \<union> (importer_rel g)\<^sup>* `` {pkg} \<and>
     (\<forall>y \<in> set marked' - set marked. set (lookup g y) \<subseteq> set marked')"
  "markImporters_range n imps g marked = Some marked' \<Longrightarrow>
     set imps \<subseteq> set marked' \<and> set marked' \<subseteq> set marked \<union> (importer_rel g)\<^sup>* `` set imps \<and>
     (\<forall>y \<in> set marked' - set marked. set (lookup g y) \<subseteq> set marked')"
proof (induction n pkg g marked and n imps g marked arbitrary: marked' and marked'
    rule: markImporters_markImporters_range.induct)
  case (1 n pkg allPkgs marked)
  show ?case
  proof (cases "pkg \<in> set marked")
    case True
    with "1.prems" show ?thesis by (auto simp: markImporters.simps(1))
  next
    case False
    with "1.prems" obtain k where n: "n = Suc k"
      and r: "markImporters_range k (lookup allPkgs pkg) allPkgs (set_add pkg marked) = Some marked'"
      by (auto simp: markImporters.simps(1) split: nat.splits)
    note ih = "1.IH" [OF False n r]
    have g: "insert pkg (set marked) \<subseteq> set marked'"
      using markImporters_grows(2) [OF r] by simp
    have sub: "(importer_rel allPkgs)\<^sup>* `` set (lookup allPkgs pkg) \<subseteq> (importer_rel allPkgs)\<^sup>* `` {pkg}"
    proof
      fix q assume "q \<in> (importer_rel allPkgs)\<^sup>* `` set (lookup allPkgs pkg)"
      then obtain p where "p \<in> set (lookup allPkgs pkg)" "(p, q) \<in> (importer_rel allPkgs)\<^sup>*"
        by auto
      then have "(pkg, q) \<in> (importer_rel allPkgs)\<^sup>*"
        by (auto simp: importer_rel_def intro: converse_rtrancl_into_rtrancl)
      then show "q \<in> (importer_rel allPkgs)\<^sup>* `` {pkg}" by simp
    qed
    have a: "set marked' \<subseteq> set marked \<union> (importer_rel allPkgs)\<^sup>* `` {pkg}"
    proof
      fix q assume "q \<in> set marked'"
      with ih have "q = pkg \<or> q \<in> set marked \<or>
          q \<in> (importer_rel allPkgs)\<^sup>* `` set (lookup allPkgs pkg)"
        by auto
      with sub show "q \<in> set marked \<union> (importer_rel allPkgs)\<^sup>* `` {pkg}"
        by blast
    qed
    have b: "\<forall>y \<in> set marked' - set marked. set (lookup allPkgs y) \<subseteq> set marked'"
    proof
      fix y assume y: "y \<in> set marked' - set marked"
      show "set (lookup allPkgs y) \<subseteq> set marked'"
      proof (cases "y = pkg")
        case True
        with ih show ?thesis by simp
      next
        case False
        with y ih show ?thesis by simp
      qed
    qed
    from a b g show ?thesis by simp
  qed
next
  case (2 n allPkgs marked)
  then show ?case by simp
next
  case (3 n imp rest allPkgs marked)
  from "3.prems" obtain m1 where m1: "markImporters n imp allPkgs marked = Some m1"
    and r: "markImporters_range n rest allPkgs m1 = Some marked'"
    by (auto split: option.splits)
  note ih1 = "3.IH"(1) [OF m1]
  note ih2 = "3.IH"(2) [OF m1 r]
  have g: "set m1 \<subseteq> set marked'" using markImporters_grows(2) [OF r] .
  have a: "set marked' \<subseteq> set marked \<union> (importer_rel allPkgs)\<^sup>* `` set (imp # rest)"
  proof
    fix q assume q: "q \<in> set marked'"
    show "q \<in> set marked \<union> (importer_rel allPkgs)\<^sup>* `` set (imp # rest)"
    proof (cases "q \<in> set m1")
      case True
      with ih1 show ?thesis by auto
    next
      case False
      with q ih2 have "q \<in> (importer_rel allPkgs)\<^sup>* `` set rest" by auto
      then show ?thesis by auto
    qed
  qed
  have b: "\<forall>y \<in> set marked' - set marked. set (lookup allPkgs y) \<subseteq> set marked'"
  proof
    fix y assume y: "y \<in> set marked' - set marked"
    show "set (lookup allPkgs y) \<subseteq> set marked'"
    proof (cases "y \<in> set m1")
      case True
      with y ih1 have "set (lookup allPkgs y) \<subseteq> set m1" by simp
      with g show ?thesis by simp
    next
      case False
      with y ih2 show ?thesis by simp
    qed
  qed
  have c: "set (imp # rest) \<subseteq> set marked'" using ih1 ih2 g by auto
  from a b c show ?case by simp
qed

lemma markImporters_returns:
  "card (set (nodes g) - set marked) \<le> n \<Longrightarrow> pkg \<in> set (nodes g) \<Longrightarrow>
     \<exists>marked'. markImporters n pkg g marked = Some marked'"
  "card (set (nodes g) - set marked) \<le> n \<Longrightarrow> set imps \<subseteq> set (nodes g) \<Longrightarrow>
     \<exists>marked'. markImporters_range n imps g marked = Some marked'"
proof (induction n pkg g marked and n imps g marked
    rule: markImporters_markImporters_range.induct)
  case (1 n pkg allPkgs marked)
  show ?case
  proof (cases "pkg \<in> set marked")
    case True
    then show ?thesis by (simp add: markImporters.simps(1))
  next
    case False
    let ?A = "set (nodes allPkgs) - set marked"
    from False "1.prems" have "pkg \<in> ?A" by simp
    then have "Suc (card (?A - {pkg})) = card ?A"
      by (intro card_Suc_Diff1) simp_all
    moreover have "?A - {pkg} = set (nodes allPkgs) - set (set_add pkg marked)"
      by auto
    ultimately have c: "Suc (card (set (nodes allPkgs) - set (set_add pkg marked))) \<le> n"
      using "1.prems"(1) by simp
    then obtain k where n: "n = Suc k" by (cases n) simp_all
    with c have c': "card (set (nodes allPkgs) - set (set_add pkg marked)) \<le> k" by simp
    have l: "set (lookup allPkgs pkg) \<subseteq> set (nodes allPkgs)"
      using lookup_in_nodes by blast
    from "1.IH" [OF False n c' l] obtain m' where
      "markImporters_range k (lookup allPkgs pkg) allPkgs (set_add pkg marked) = Some m'" ..
    with False n show ?thesis by (simp add: markImporters.simps(1))
  qed
next
  case (2 n allPkgs marked)
  then show ?case by simp
next
  case (3 n imp rest allPkgs marked)
  from "3.prems" have "imp \<in> set (nodes allPkgs)" by simp
  from "3.IH"(1) [OF "3.prems"(1) this]
  obtain m1 where m1: "markImporters n imp allPkgs marked = Some m1" ..
  have "set (nodes allPkgs) - set m1 \<subseteq> set (nodes allPkgs) - set marked"
    using markImporters_grows(1) [OF m1] by auto
  then have "card (set (nodes allPkgs) - set m1) \<le> card (set (nodes allPkgs) - set marked)"
    by (intro card_mono) simp_all
  with "3.prems" have c: "card (set (nodes allPkgs) - set m1) \<le> n" by simp
  from "3.prems" have "set rest \<subseteq> set (nodes allPkgs)" by simp
  from "3.IH"(2) [OF m1 c this] m1 show ?case by simp
qed


lemma mark_range_grows:
  "mark_range n wm ks g marked = Some marked' \<Longrightarrow> set marked \<subseteq> set marked'"
proof (induction ks arbitrary: marked)
  case Nil
  then show ?case by simp
next
  case (Cons k ks)
  show ?case
  proof (cases "wm k")
    case False
    with Cons show ?thesis by simp
  next
    case True
    with Cons.prems obtain m1 where m1: "markImporters n k g marked = Some m1"
      and r: "mark_range n wm ks g m1 = Some marked'"
      by (auto split: option.splits)
    from markImporters_grows(1) [OF m1] Cons.IH [OF r] show ?thesis by simp
  qed
qed

lemma mark_range_sound:
  "mark_range n wm ks g marked = Some marked' \<Longrightarrow>
     {k \<in> set ks. wm k} \<subseteq> set marked' \<and>
     set marked' \<subseteq> set marked \<union> (importer_rel g)\<^sup>* `` {k \<in> set ks. wm k} \<and>
     (\<forall>y \<in> set marked' - set marked. set (lookup g y) \<subseteq> set marked')"
proof (induction ks arbitrary: marked)
  case Nil
  then show ?case by simp
next
  case (Cons k ks)
  show ?case
  proof (cases "wm k")
    case False
    with Cons.prems have "mark_range n wm ks g marked = Some marked'" by simp
    from Cons.IH [OF this] False show ?thesis by auto
  next
    case True
    with Cons.prems obtain m1 where m1: "markImporters n k g marked = Some m1"
      and r: "mark_range n wm ks g m1 = Some marked'"
      by (auto split: option.splits)
    note s1 = markImporters_sound(1) [OF m1]
    note ih = Cons.IH [OF r]
    note g1 = mark_range_grows [OF r]
    have a: "{x \<in> set (k # ks). wm x} \<subseteq> set marked'"
      using s1 ih g1 True by auto
    have b: "set marked' \<subseteq> set marked \<union> (importer_rel g)\<^sup>* `` {x \<in> set (k # ks). wm x}"
    proof
      fix q assume q: "q \<in> set marked'"
      show "q \<in> set marked \<union> (importer_rel g)\<^sup>* `` {x \<in> set (k # ks). wm x}"
      proof (cases "q \<in> set m1")
        case True
        with s1 have "q \<in> set marked \<or> (k, q) \<in> (importer_rel g)\<^sup>*" by auto
        with \<open>wm k\<close> show ?thesis by auto
      next
        case False
        with q ih have "q \<in> (importer_rel g)\<^sup>* `` {x \<in> set ks. wm x}" by auto
        then show ?thesis by auto
      qed
    qed
    have c: "\<forall>y \<in> set marked' - set marked. set (lookup g y) \<subseteq> set marked'"
    proof
      fix y assume y: "y \<in> set marked' - set marked"
      show "set (lookup g y) \<subseteq> set marked'"
      proof (cases "y \<in> set m1")
        case True
        with y s1 have "set (lookup g y) \<subseteq> set m1" by simp
        with g1 show ?thesis by simp
      next
        case False
        with y ih show ?thesis by simp
      qed
    qed
    from a b c show ?thesis by simp
  qed
qed

lemma mark_range_returns:
  "card (set (nodes g) - set marked) \<le> n \<Longrightarrow> set ks \<subseteq> set (nodes g) \<Longrightarrow>
     \<exists>marked'. mark_range n wm ks g marked = Some marked'"
proof (induction ks arbitrary: marked)
  case Nil
  then show ?case by simp
next
  case (Cons k ks)
  show ?case
  proof (cases "wm k")
    case False
    with Cons show ?thesis by simp
  next
    case True
    from Cons.prems have "k \<in> set (nodes g)" by simp
    from markImporters_returns(1) [OF Cons.prems(1) this]
    obtain m1 where m1: "markImporters n k g marked = Some m1" ..
    have "set (nodes g) - set m1 \<subseteq> set (nodes g) - set marked"
      using markImporters_grows(1) [OF m1] by auto
    then have "card (set (nodes g) - set m1) \<le> card (set (nodes g) - set marked)"
      by (intro card_mono) simp_all
    with Cons.prems have c: "card (set (nodes g) - set m1) \<le> n" by simp
    from Cons.prems have "set ks \<subseteq> set (nodes g)" by simp
    from Cons.IH [OF c this] m1 True show ?thesis by simp
  qed
qed

lemma closed_contains_reachable:
  assumes "(t, q) \<in> (importer_rel g)\<^sup>*" and "t \<in> S"
    and "\<forall>y \<in> S. set (lookup g y) \<subseteq> S"
  shows "q \<in> S"
  using assms(1)
proof (induction rule: rtrancl_induct)
  case base
  show ?case by (rule assms(2))
next
  case (step y z)
  then have "z \<in> set (lookup g y)" by (simp add: importer_rel_def)
  with step.IH assms(3) show ?case by blast
qed

lemma mark_range_ancestors_of:
  assumes "mark_range n wm ks g [] = Some marked"
  shows "set marked = (importer_rel g)\<^sup>* `` {k \<in> set ks. wm k}"
proof
  from mark_range_sound [OF assms]
  show "set marked \<subseteq> (importer_rel g)\<^sup>* `` {k \<in> set ks. wm k}" by simp
next
  from mark_range_sound [OF assms]
  have seeds: "{k \<in> set ks. wm k} \<subseteq> set marked"
    and closed: "\<forall>y \<in> set marked. set (lookup g y) \<subseteq> set marked"
    by simp_all
  show "(importer_rel g)\<^sup>* `` {k \<in> set ks. wm k} \<subseteq> set marked"
  proof
    fix q assume "q \<in> (importer_rel g)\<^sup>* `` {k \<in> set ks. wm k}"
    then obtain t where "t \<in> set ks" "wm t" "(t, q) \<in> (importer_rel g)\<^sup>*" by auto
    with seeds closed_contains_reachable [OF _ _ closed] show "q \<in> set marked" by blast
  qed
qed

lemma fold_delete_if:
  "fold (\<lambda>k m. if P k then AList.delete k m else m) ks g
     = filter (\<lambda>kv. \<not> (fst kv \<in> set ks \<and> P (fst kv))) g"
proof (induction ks arbitrary: g)
  case Nil
  then show ?case by simp
next
  case (Cons k ks)
  have "filter (\<lambda>kv. \<not> (fst kv \<in> set ks \<and> P (fst kv))) (AList.delete k g)
      = filter (\<lambda>kv. \<not> (fst kv \<in> set (k # ks) \<and> P (fst kv)) \<and> fst kv \<noteq> k) g"
    by (induction g) (auto simp: AList.delete_eq)
  moreover have "P k \<Longrightarrow> filter (\<lambda>kv. \<not> (fst kv \<in> set (k # ks) \<and> P (fst kv)) \<and> fst kv \<noteq> k) g
      = filter (\<lambda>kv. \<not> (fst kv \<in> set (k # ks) \<and> P (fst kv))) g"
    by (rule filter_cong) auto
  moreover have "\<not> P k \<Longrightarrow> filter (\<lambda>kv. \<not> (fst kv \<in> set ks \<and> P (fst kv))) g
      = filter (\<lambda>kv. \<not> (fst kv \<in> set (k # ks) \<and> P (fst kv))) g"
    by (rule filter_cong) auto
  ultimately show ?case using Cons.IH by simp
qed

lemma delete_unmarked_filter:
  "set (range_order E (keys g)) = set (keys g) \<Longrightarrow>
   delete_unmarked E marked g = filter (\<lambda>kv. fst kv \<in> set marked) g"
  unfolding delete_unmarked_def fold_delete_if
  by (rule filter_cong) (auto simp: keys_def)

lemma delete_roots_filter:
  "delete_roots E rootPkgs g = filter (\<lambda>kv. fst kv \<notin> set (range_order E rootPkgs)) g"
  using fold_delete_if [of "\<lambda>k. True" "range_order E rootPkgs" g]
  by (simp add: delete_roots_def)

lemma mark_range_closure:
  assumes "set (range_order E (keys g)) = set (keys g)" and "card (set (nodes g)) \<le> n"
  shows "\<exists>marked. mark_range n isTarget (range_order E (keys g)) g [] = Some marked \<and>
           set marked = ancestors g isTarget \<and>
           delete_unmarked E marked g = filter (\<lambda>kv. fst kv \<in> ancestors g isTarget) g"
proof -
  from assms(2) have c: "card (set (nodes g) - set []) \<le> n" by simp
  have "set (range_order E (keys g)) \<subseteq> set (nodes g)"
    using assms(1) by (simp add: nodes_def)
  from mark_range_returns [OF c this]
  obtain marked where m: "mark_range n isTarget (range_order E (keys g)) g [] = Some marked" ..
  have a: "set marked = ancestors g isTarget"
    using mark_range_ancestors_of [OF m] assms(1) by (auto simp: ancestors_def)
  have d: "delete_unmarked E marked g = filter (\<lambda>kv. fst kv \<in> ancestors g isTarget) g"
    using delete_unmarked_filter [OF assms(1)] a by simp
  from m a d show ?thesis by blast
qed

lemma card_nodes_le: "card (set (nodes g)) \<le> length (nodes g)"
  by (rule card_length)

text \<open>
  C1, as the code has it. When the depth budget covers the paths of the graph, the marking
  loop of \<^verbatim>\<open>main\<close> returns, and the paths it has marked are exactly the ancestors of the
  target predicate: the keys that satisfy it and every path that imports one of them,
  directly or through other importers. A marked path need not be a key of the graph. The
  loop that follows keeps exactly the keys that are ancestors, each with its list; if no
  key satisfies the predicate, nothing is marked and the graph ends up empty.
\<close>

theorem mark_range_ancestors:
  assumes "set (range_order E (keys g)) = set (keys g)" and "length (nodes g) \<le> n"
  shows "\<exists>marked. mark_range n isTarget (range_order E (keys g)) g [] = Some marked \<and>
           set marked = ancestors g isTarget \<and>
           delete_unmarked E marked g = filter (\<lambda>kv. fst kv \<in> ancestors g isTarget) g \<and>
           ((\<forall>k \<in> set (keys g). \<not> isTarget k) \<longrightarrow> marked = [] \<and> delete_unmarked E marked g = [])"
proof -
  from assms(2) card_nodes_le [of g] have "card (set (nodes g)) \<le> n" by simp
  from mark_range_closure [OF assms(1) this, of isTarget] obtain marked where
    m: "mark_range n isTarget (range_order E (keys g)) g [] = Some marked"
    and a: "set marked = ancestors g isTarget"
    and d: "delete_unmarked E marked g = filter (\<lambda>kv. fst kv \<in> ancestors g isTarget) g"
    by blast
  have e: "marked = [] \<and> delete_unmarked E marked g = []" if "\<forall>k \<in> set (keys g). \<not> isTarget k"
  proof -
    from that have "ancestors g isTarget = {}" by (auto simp: ancestors_def)
    with a d show ?thesis by simp
  qed
  from m a d e show ?thesis by blast
qed

theorem mark_range_ancestors_witness:
  "mark_range 5 (\<lambda>p. p = ''X'') (range_order env0 (keys [(''X'', [''A'']), (''A'', [''B'']), (''B'', [])]))
     [(''X'', [''A'']), (''A'', [''B'']), (''B'', [])] [] = Some [''X'', ''A'', ''B'']
   \<and> ancestors [(''X'', [''A'']), (''A'', [''B'']), (''B'', [])] (\<lambda>p. p = ''X'') = {''X'', ''A'', ''B''}"
proof -
  let ?g = "[(''X'', [''A'']), (''A'', [''B'']), (''B'', [])]"
  have h1: "set (range_order env0 (keys ?g)) = set (keys ?g)" by (simp add: env0_def)
  have h2: "length (nodes ?g) \<le> 5" by (simp add: nodes_def keys_def)
  have ev: "mark_range 5 (\<lambda>p. p = ''X'') (range_order env0 (keys ?g)) ?g [] = Some [''X'', ''A'', ''B'']"
    by (simp add: env0_def keys_def markImporters.simps(1) lookup_def set_add_def
        eval_nat_numeral)
  from mark_range_ancestors [OF h1 h2, of "\<lambda>p. p = ''X''"] ev show ?thesis by auto
qed

text \<open>
  The claim as written speaks of a set of keys. An importer that is not a key is marked
  all the same: \<^verbatim>\<open>main\<close> deletes the roots from the map before it marks, and the roots
  stay in the importer lists.
\<close>

theorem mark_range_marks_non_key:
  "mark_range 2 (\<lambda>p. p = ''X'') (range_order env0 (keys [(''X'', [''R''])])) [(''X'', [''R''])] []
     = Some [''X'', ''R'']
   \<and> ''R'' \<notin> set (keys [(''X'', [''R''])])"
  by (simp add: env0_def keys_def markImporters.simps(1) lookup_def set_add_def
      eval_nat_numeral)

section \<open>Roots are not printed\<close>

lemma length_nodes_filter: "length (nodes (filter P g)) \<le> length (nodes g)"
  by (induction g) (auto simp: nodes_def keys_def)

lemma keys_filter: "set (keys (filter P g)) = {k \<in> set (keys g). \<exists>v. (k, v) \<in> set g \<and> P (k, v)}"
  by (force simp: keys_def)

lemma showFiles_FileLine: "l \<in> set (showFiles p fs) \<Longrightarrow> \<exists>d f. l = FileLine d f"
  by (induction fs) auto

lemma render_keys:
  assumes "set (range_order E (keys g)) = set (keys g)"
    and "PkgLine r \<in> set (render E cwd F rootPkgs g) \<or> FromLine r imps \<in> set (render E cwd F rootPkgs g)"
  shows "r \<in> set (keys g)"
proof -
  from assms(2) obtain k where k: "k \<in> set (range_order E (keys g))"
    and "PkgLine r \<in> set (render_one E cwd F rootPkgs g k) \<or>
         FromLine r imps \<in> set (render_one E cwd F rootPkgs g k)"
    by (auto simp: render_def)
  then have "r = k"
    by (auto simp: render_one_def Let_def split: if_splits dest: showFiles_FileLine)
  with k assms(1) show ?thesis by simp
qed

lemma prune_no_roots:
  assumes "\<And>ks. set (range_order E ks) = set ks" and "\<not> flag_files F"
    and "prune E F n whyMatch rootPkgs g = Some g'"
  shows "set (keys g') \<inter> set rootPkgs = {}"
proof -
  have d: "set (keys (delete_roots E rootPkgs g)) \<inter> set rootPkgs = {}"
    by (auto simp: delete_roots_filter keys_filter assms(1))
  show ?thesis
  proof (cases whyMatch)
    case None
    with assms(2,3) d show ?thesis by (simp add: prune_def)
  next
    case (Some wm)
    with assms(2,3) obtain marked where
      "g' = delete_unmarked E marked (delete_roots E rootPkgs g)"
      by (auto simp: prune_def Let_def split: option.splits)
    then have "set (keys g') \<subseteq> set (keys (delete_roots E rootPkgs g))"
      by (auto simp: delete_unmarked_filter assms(1) keys_filter)
    with d show ?thesis by auto
  qed
qed

lemma why_flags_files: "why_flags F0 = Some (F, wm) \<Longrightarrow> flag_files F = flag_files F0"
  by (auto simp: why_flags_def split: if_splits option.splits)

text \<open>
  C3. With files mode off, no line of the output names a root: the key of every \<open>PkgLine\<close>
  and of every \<open>FromLine\<close> that \<^verbatim>\<open>main\<close> prints is outside \<^verbatim>\<open>rootPkgs\<close>, the set that the
  first loop of \<^verbatim>\<open>main\<close> builds.
\<close>

theorem roots_not_rendered:
  assumes "\<And>ks. set (range_order E ks) = set ks"
    and "\<not> flag_files F0"
    and "Getwd E = Inr cwd"
    and "rootPkgs_range E cwd (ImportPaths E (if args = [] then [''.''] else args)) [] = Inr rootPkgs"
    and "main E F0 args n = Some (Inr out)"
    and "PkgLine r \<in> set out \<or> FromLine r imps \<in> set out"
  shows "r \<notin> set rootPkgs"
proof -
  from assms(3,4,5) obtain F wm g g' where w: "why_flags F0 = Some (F, wm)"
    and p: "prune E F n wm rootPkgs g = Some g'"
    and out: "out = render E cwd F rootPkgs g'"
    by (auto simp: main_def Let_def split: option.splits sum.splits)
  from why_flags_files [OF w] assms(2) have "\<not> flag_files F" by simp
  from prune_no_roots [OF assms(1) this p] have "set (keys g') \<inter> set rootPkgs = {}" .
  moreover have "r \<in> set (keys g')"
    using render_keys [of E g' r cwd F rootPkgs imps] assms(1,6) out by simp
  ultimately show ?thesis by auto
qed

theorem roots_not_rendered_witness:
  "main env0 flags0 [''x.io/r1''] 3 = Some (Inr [PkgLine ''x.io/a'', PkgLine ''x.io/t''])
   \<and> ''x.io/a'' \<notin> set [''x.io/r1'']"
proof -
  have h1: "\<And>ks. set (range_order env0 ks) = set ks" by (simp add: env0_def)
  have h2: "\<not> flag_files flags0" by (simp add: flags0_def)
  have h3: "Getwd env0 = Inr ''/w''" by (simp add: env0_def)
  have h4: "rootPkgs_range env0 ''/w'' (ImportPaths env0 (if [''x.io/r1''] = [] then [''.''] else [''x.io/r1''])) []
      = Inr [''x.io/r1'']"
    by (simp add: env0_def Import0_def pkg0_def set_add_def)
  have h5: "main env0 flags0 [''x.io/r1''] 3 = Some (Inr [PkgLine ''x.io/a'', PkgLine ''x.io/t''])"
    by (simp add: main_def env0_def flags0_def why_flags_def Import0_def pkg0_def set_add_def
        eval_nat_numeral imports_of_def isStdlib_def lookup_def prune_def delete_roots_def
        findImports.simps(1)
        render_def render_one_def keys_def)
  have h6: "PkgLine ''x.io/a'' \<in> set [PkgLine ''x.io/a'', PkgLine ''x.io/t'']
      \<or> FromLine ''x.io/a'' [] \<in> set [PkgLine ''x.io/a'', PkgLine ''x.io/t'']" by simp
  from roots_not_rendered [OF h1 h2 h3 h4 h5 h6] h5 show ?thesis by simp
qed


section \<open>The order of the two deletions\<close>

lemma keys_filter_notin: "set (keys (filter (\<lambda>kv. fst kv \<notin> S) g)) = set (keys g) - S"
  by (auto simp: keys_def)

text \<open>
  What the block computes in the order of the source, with a target predicate and files
  mode off: the roots are deleted first and the marking runs on what is left, so the result
  keeps the keys that are ancestors of the predicate in the graph without the roots.
\<close>

lemma prune_deletes_roots_first:
  assumes "\<And>ks. set (range_order E ks) = set ks"
    and "\<not> flag_files F"
    and "length (nodes g) \<le> n"
  shows "delete_roots E rootPkgs g = filter (\<lambda>kv. fst kv \<notin> set rootPkgs) g \<and>
         prune E F n (Some wm) rootPkgs g =
           Some (filter (\<lambda>kv. fst kv \<in> ancestors (delete_roots E rootPkgs g) wm)
                   (delete_roots E rootPkgs g)) \<and>
         ((\<forall>k \<in> set (keys g) - set rootPkgs. \<not> wm k) \<longrightarrow>
            prune E F n (Some wm) rootPkgs g = Some [])"
proof -
  let ?g = "delete_roots E rootPkgs g"
  have d: "?g = filter (\<lambda>kv. fst kv \<notin> set rootPkgs) g"
    by (simp add: delete_roots_filter assms(1))
  have "length (nodes ?g) \<le> length (nodes g)"
    unfolding d by (rule length_nodes_filter)
  with assms(3) card_nodes_le [of ?g] have n: "card (set (nodes ?g)) \<le> n" by simp
  from mark_range_closure [OF assms(1) n, of wm]
  have p: "prune E F n (Some wm) rootPkgs g =
      Some (filter (\<lambda>kv. fst kv \<in> ancestors ?g wm) ?g)"
    using assms(2) by (auto simp: prune_def Let_def)
  have "prune E F n (Some wm) rootPkgs g = Some []"
    if "\<forall>k \<in> set (keys g) - set rootPkgs. \<not> wm k"
  proof -
    have "set (keys ?g) = set (keys g) - set rootPkgs"
      unfolding d by (rule keys_filter_notin)
    with that have "ancestors ?g wm = {}" by (auto simp: ancestors_def)
    with p show ?thesis by simp
  qed
  with d p show ?thesis by blast
qed

lemma prune_deletes_roots_first_example:
  "prune env0 flags0 9 (Some (\<lambda>p. p = ''x.io/b'')) [''x.io/b'', ''x.io/r1''] graph0 = Some []
   \<and> prune env0 flags0 9 (Some (\<lambda>p. p = ''x.io/a'')) [''x.io/b'', ''x.io/r1''] graph0
       = Some [(''x.io/a'', [''x.io/r1''])]"
proof -
  have h1: "\<And>ks. set (range_order env0 ks) = set ks" by (simp add: env0_def)
  have h2: "\<not> flag_files flags0" by (simp add: flags0_def)
  have h3: "length (nodes graph0) \<le> 9" by (simp add: graph0_def nodes_def keys_def)
  have h4: "\<forall>k \<in> set (keys graph0) - set [''x.io/b'', ''x.io/r1'']. \<not> k = ''x.io/b''"
    by (simp add: graph0_def keys_def)
  have ev: "prune env0 flags0 9 (Some (\<lambda>p. p = ''x.io/a'')) [''x.io/b'', ''x.io/r1''] graph0
       = Some [(''x.io/a'', [''x.io/r1''])]"
    by (simp add: env0_def flags0_def set_add_def eval_nat_numeral lookup_def prune_def
        delete_roots_def keys_def graph0_def delete_unmarked_def markImporters.simps(1))
  have "prune env0 flags0 9 (Some (\<lambda>p. p = ''x.io/b'')) [''x.io/b'', ''x.io/r1''] graph0 = Some []"
    using prune_deletes_roots_first [OF h1 h2 h3, of "[''x.io/b'', ''x.io/r1'']" "\<lambda>p. p = ''x.io/b''"] h4
    by blast
  with ev show ?thesis by simp
qed

text \<open>
  C5 at two concrete inputs. The claim has the closure computed on the whole graph and the
  roots excluded afterwards; the source deletes the roots first, and with them the importer
  lists through which the marking would go on.

  In the first input \<open>x.io/b\<close> and \<open>x.io/r1\<close> are roots, \<open>x.io/a\<close> imports \<open>x.io/b\<close>, and the
  target is \<open>x.io/b\<close>. With the closure first, the entry of \<open>x.io/a\<close>, which imports the
  target, is kept; the program deletes it and prints nothing. In the second input the
  target \<open>x.io/x\<close> is not a root: the roots are \<open>x.io/r1\<close> and \<open>x.io/r2\<close>, \<open>x.io/r1\<close> imports
  \<open>x.io/p\<close>, \<open>x.io/p\<close> imports \<open>x.io/r2\<close> and \<open>x.io/r2\<close> imports \<open>x.io/x\<close>. The program deletes the
  entry of \<open>x.io/p\<close>, which imports the target through the root \<open>x.io/r2\<close>.
\<close>

theorem prune_root_does_not_seed:
  "allPkgs_range env0 ''/w'' (flags0\<lparr>flag_all := True, flag_from := True, flag_why := ''x.io/b''\<rparr>) 4
     [''x.io/b'', ''x.io/r1''] [] [''x.io/b'', ''x.io/r1''] = Some (Inr graph0)
   \<and> prune env0 flags0 9 (Some (\<lambda>p. p = ''x.io/b'')) [''x.io/b'', ''x.io/r1''] graph0 = Some []
   \<and> prune_claimed env0 flags0 9 (Some (\<lambda>p. p = ''x.io/b'')) [''x.io/b'', ''x.io/r1''] graph0
       = Some [(''x.io/a'', [''x.io/r1''])]
   \<and> main env0 (flags0\<lparr>flag_why := ''x.io/b''\<rparr>) [''x.io/b'', ''x.io/r1''] 9 = Some (Inr [])
   \<and> prune env0 flags0 9 (Some (\<lambda>p. p = ''x.io/x'')) [''x.io/r1'', ''x.io/r2'']
       [(''x.io/x'', [''x.io/r2'']), (''x.io/p'', [''x.io/r1'']), (''x.io/r1'', []),
        (''x.io/r2'', [''x.io/p''])]
     = Some [(''x.io/x'', [''x.io/r2''])]
   \<and> prune_claimed env0 flags0 9 (Some (\<lambda>p. p = ''x.io/x'')) [''x.io/r1'', ''x.io/r2'']
       [(''x.io/x'', [''x.io/r2'']), (''x.io/p'', [''x.io/r1'']), (''x.io/r1'', []),
        (''x.io/r2'', [''x.io/p''])]
     = Some [(''x.io/x'', [''x.io/r2'']), (''x.io/p'', [''x.io/r1''])]"
  by (simp add: main_def env0_def flags0_def why_flags_def Import0_def pkg0_def set_add_def
        eval_nat_numeral imports_of_def isStdlib_def lookup_def prune_def delete_roots_def
        findImports.simps(1)
        render_def render_one_def keys_def graph0_def prune_claimed_def delete_unmarked_def
        markImporters.simps(1) matchPattern_def QuoteMeta_def specialBytes_def backslash_def
        HasSuffix_def MustCompile_def newline_def)

section \<open>Invariants of findImports\<close>

lemma findImports_C [simp]: "findImports E cwd F n ''C'' g roots = Some (Inr g)"
  by (simp add: findImports.simps(1))

lemma findImports_0: "q \<noteq> ''C'' \<Longrightarrow> findImports E cwd F 0 q g roots = None"
  by (simp add: findImports.simps(1))

lemma findImports_Suc:
  "q \<noteq> ''C'' \<Longrightarrow> findImports E cwd F (Suc k) q g roots =
     (case Import E q cwd ImportAll of
        (pkg, Some err) \<Rightarrow> Some (Inl (CannotFind q (BuildError err)))
      | (pkg, None) \<Rightarrow>
          findImports_range E cwd F k (ImportPath pkg)
            (range_order E (imports_of F pkg (ImportPath pkg \<in> set roots)))
            (AList.update (ImportPath pkg) (lookup g (ImportPath pkg)) g) roots)"
  by (simp add: findImports.simps(1))

lemma findImports_Inr_cases:
  assumes "findImports E cwd F n q g roots = Some (Inr g')"
  obtains (C) "q = ''C''" "g' = g"
  | (resolved) k pkg where "q \<noteq> ''C''" "n = Suc k" "Import E q cwd ImportAll = (pkg, None)"
      "findImports_range E cwd F k (ImportPath pkg)
         (range_order E (imports_of F pkg (ImportPath pkg \<in> set roots)))
         (AList.update (ImportPath pkg) (lookup g (ImportPath pkg)) g) roots = Some (Inr g')"
proof (cases "q = ''C''")
  case True
  with assms that(1) show ?thesis by simp
next
  case False
  with assms obtain k where n: "n = Suc k" by (cases n) (simp_all add: findImports_0)
  obtain pkg err where i: "Import E q cwd ImportAll = (pkg, err)" by (cases "Import E q cwd ImportAll")
  with assms False n have "err = None" by (cases err) (simp_all add: findImports_Suc)
  with assms False n i that(2) show ?thesis by (simp add: findImports_Suc)
qed

lemma findImports_range_Inr_cases:
  assumes "findImports_range E cwd F n path (name # rest) g roots = Some (Inr g')"
  obtains (skip) "\<not> flag_std F" "isStdlib name"
      "findImports_range E cwd F n path rest g roots = Some (Inr g')"
  | (recurse) g1 where "flag_std F \<or> \<not> isStdlib name" "flag_all F" "lookup g name = []"
      "findImports E cwd F n name (AList.update name (lookup g name @ [path]) g) roots = Some (Inr g1)"
      "findImports_range E cwd F n path rest g1 roots = Some (Inr g')"
  | (norec) "flag_std F \<or> \<not> isStdlib name" "\<not> (flag_all F \<and> lookup g name = [])"
      "findImports_range E cwd F n path rest (AList.update name (lookup g name @ [path]) g) roots
         = Some (Inr g')"
proof (cases "\<not> flag_std F \<and> isStdlib name")
  case True
  with assms that(1) show ?thesis by simp
next
  case False
  show ?thesis
  proof (cases "flag_all F \<and> lookup g name = []")
    case True
    with assms False that(2) show ?thesis
      by (auto simp: Let_def split: option.splits sum.splits)
  next
    case nr: False
    with assms False that(3) show ?thesis by (auto simp: Let_def)
  qed
qed

lemma findImports_invariant:
  fixes Q :: "graph \<Rightarrow> bool"
  assumes perm: "\<And>ks. set (range_order E ks) \<subseteq> set ks"
    and ensure: "\<And>g q pkg. Q g \<Longrightarrow> q \<noteq> ''C'' \<Longrightarrow> Import E q cwd ImportAll = (pkg, None) \<Longrightarrow>
        Q (AList.update (ImportPath pkg) (lookup g (ImportPath pkg)) g)"
    and append: "\<And>g q pkg name. Q g \<Longrightarrow> Import E q cwd ImportAll = (pkg, None) \<Longrightarrow>
        name \<in> set (imports_of F pkg (ImportPath pkg \<in> set roots)) \<Longrightarrow>
        flag_std F \<or> \<not> isStdlib name \<Longrightarrow>
        Q (AList.update name (lookup g name @ [ImportPath pkg]) g)"
  shows "findImports E cwd F n q g roots = Some (Inr g') \<Longrightarrow> Q g \<Longrightarrow> Q g'"
    and "findImports_range E cwd F n path names g roots = Some (Inr g') \<Longrightarrow> Q g \<Longrightarrow>
      \<exists>q pkg. Import E q cwd ImportAll = (pkg, None) \<and> ImportPath pkg = path \<and>
        set names \<subseteq> set (imports_of F pkg (path \<in> set roots)) \<Longrightarrow> Q g'"
proof -
  let ?from = "\<lambda>path names. \<exists>q pkg. Import E q cwd ImportAll = (pkg, None) \<and> ImportPath pkg = path \<and>
      set names \<subseteq> set (imports_of F pkg (path \<in> set roots))"
  let ?PF = "\<lambda>n. \<forall>q g g'. findImports E cwd F n q g roots = Some (Inr g') \<longrightarrow> Q g \<longrightarrow> Q g'"
  let ?PR = "\<lambda>n. \<forall>path names g g'. findImports_range E cwd F n path names g roots = Some (Inr g') \<longrightarrow>
      Q g \<longrightarrow> ?from path names \<longrightarrow> Q g'"
  have range: "?PR n" if pf: "?PF n" for n
  proof (intro allI impI)
    fix path names g g'
    assume "findImports_range E cwd F n path names g roots = Some (Inr g')" "Q g" "?from path names"
    then show "Q g'"
    proof (induction names arbitrary: g)
      case Nil
      then show ?case by simp
    next
      case (Cons name rest)
      from Cons.prems(3) obtain q pkg where i: "Import E q cwd ImportAll = (pkg, None)"
        and p: "ImportPath pkg = path"
        and nm: "name \<in> set (imports_of F pkg (path \<in> set roots))"
        and rs: "?from path rest"
        by auto
      from Cons.prems(1) show ?case
      proof (cases rule: findImports_range_Inr_cases)
        case skip
        from Cons.IH [OF skip(3) Cons.prems(2) rs] show ?thesis .
      next
        case (recurse g1)
        have "Q (AList.update name (lookup g name @ [path]) g)"
          using append [OF Cons.prems(2) i _ recurse(1)] nm p by simp
        with pf recurse(4) have "Q g1" by blast
        from Cons.IH [OF recurse(5) this rs] show ?thesis .
      next
        case norec
        have "Q (AList.update name (lookup g name @ [path]) g)"
          using append [OF Cons.prems(2) i _ norec(1)] nm p by simp
        from Cons.IH [OF norec(3) this rs] show ?thesis .
      qed
    qed
  qed
  have find0: "?PF 0"
  proof (intro allI impI)
    fix q g g' assume "findImports E cwd F 0 q g roots = Some (Inr g')" "Q g"
    then show "Q g'" by (cases rule: findImports_Inr_cases) simp_all
  qed
  have findS: "?PF (Suc k)" if pr: "?PR k" for k
  proof (intro allI impI)
    fix q g g' assume "findImports E cwd F (Suc k) q g roots = Some (Inr g')" and Q: "Q g"
    then show "Q g'"
    proof (cases rule: findImports_Inr_cases)
      case C
      with Q show ?thesis by simp
    next
      case (resolved k' pkg)
      have "?from (ImportPath pkg) (range_order E (imports_of F pkg (ImportPath pkg \<in> set roots)))"
        using resolved(3) perm by blast
      moreover from ensure [OF Q resolved(1,3)]
      have "Q (AList.update (ImportPath pkg) (lookup g (ImportPath pkg)) g)" .
      ultimately show ?thesis using pr resolved(2,4) by blast
    qed
  qed
  have pf: "?PF n"
  proof (induction n)
    case 0
    show ?case by (rule find0)
  next
    case (Suc k)
    from findS [OF range [OF Suc]] show ?case .
  qed
  then show "findImports E cwd F n q g roots = Some (Inr g') \<Longrightarrow> Q g \<Longrightarrow> Q g'" by blast
  from range [OF pf]
  show "findImports_range E cwd F n path names g roots = Some (Inr g') \<Longrightarrow> Q g \<Longrightarrow>
      \<exists>q pkg. Import E q cwd ImportAll = (pkg, None) \<and> ImportPath pkg = path \<and>
        set names \<subseteq> set (imports_of F pkg (path \<in> set roots)) \<Longrightarrow> Q g'"
    by blast
qed

lemma lookup_update:
  "lookup (AList.update k v g) x = (if x = k then v else lookup g x)"
  by (simp add: lookup_def update_conv')

lemma lookup_ensure [simp]: "lookup (AList.update k (lookup g k) g) x = lookup g x"
  by (simp add: lookup_update)

lemma keys_update: "set (keys (AList.update k v g)) = insert k (set (keys g))"
  using dom_update [of k v g] by (simp add: keys_def)

lemma set_addPackages:
  "set (addPackages F m ss) = set m \<union> {s \<in> set ss. flag_std F \<or> \<not> isStdlib s}"
  by (induction ss arbitrary: m) auto

lemma set_imports_of:
  "set (imports_of F pkg isRoot) =
     {s \<in> set (Imports pkg) \<union>
          (if isRoot \<and> \<not> flag_noTestDeps F then set (TestImports pkg) \<union> set (XTestImports pkg)
           else {}).
        flag_std F \<or> \<not> isStdlib s}"
  by (auto simp: imports_of_def Let_def set_addPackages)

lemma allPkgs_range_Inr_cases:
  assumes "allPkgs_range E cwd F n (pkg # rest) g roots = Some (Inr g')"
  obtains g1 where "findImports E cwd F n pkg g roots = Some (Inr g1)"
    "allPkgs_range E cwd F n rest g1 roots = Some (Inr g')"
  using assms by (auto split: option.splits sum.splits)

lemma allPkgs_range_invariant:
  fixes Q :: "graph \<Rightarrow> bool"
  assumes perm: "\<And>ks. set (range_order E ks) \<subseteq> set ks"
    and ensure: "\<And>g q pkg. Q g \<Longrightarrow> q \<noteq> ''C'' \<Longrightarrow> Import E q cwd ImportAll = (pkg, None) \<Longrightarrow>
        Q (AList.update (ImportPath pkg) (lookup g (ImportPath pkg)) g)"
    and append: "\<And>g q pkg name. Q g \<Longrightarrow> Import E q cwd ImportAll = (pkg, None) \<Longrightarrow>
        name \<in> set (imports_of F pkg (ImportPath pkg \<in> set roots)) \<Longrightarrow>
        flag_std F \<or> \<not> isStdlib name \<Longrightarrow>
        Q (AList.update name (lookup g name @ [ImportPath pkg]) g)"
  shows "allPkgs_range E cwd F n pkgs g roots = Some (Inr g') \<Longrightarrow> Q g \<Longrightarrow> Q g'"
proof (induction pkgs arbitrary: g)
  case Nil
  then show ?case by simp
next
  case (Cons pkg rest)
  from Cons.prems(1) obtain g1 where f: "findImports E cwd F n pkg g roots = Some (Inr g1)"
    and r: "allPkgs_range E cwd F n rest g1 roots = Some (Inr g')"
    by (rule allPkgs_range_Inr_cases)
  have "Q g1"
    by (rule findImports_invariant(1) [where Q = Q, OF perm ensure append f Cons.prems(2)])
  from Cons.IH [OF r this] show ?case .
qed

lemma findImports_lookup_mono:
  assumes "\<And>ks. set (range_order E ks) \<subseteq> set ks"
  shows "findImports E cwd F n q g roots = Some (Inr g') \<Longrightarrow> set (lookup g x) \<subseteq> set (lookup g' x)"
proof -
  let ?Q = "\<lambda>h. set (lookup g x) \<subseteq> set (lookup h x)"
  assume f: "findImports E cwd F n q g roots = Some (Inr g')"
  show "?Q g'"
  proof (rule findImports_invariant(1) [where Q = ?Q, OF assms _ _ f])
    show "?Q g" by simp
  next
    fix h pkg assume "?Q h"
    then show "?Q (AList.update (ImportPath pkg) (lookup h (ImportPath pkg)) h)" by simp
  next
    fix h pkg name assume "?Q h"
    then show "?Q (AList.update name (lookup h name @ [ImportPath pkg]) h)"
      by (auto simp: lookup_update)
  qed
qed

lemma findImports_range_lookup_mono:
  assumes "\<And>ks. set (range_order E ks) \<subseteq> set ks"
  shows "findImports_range E cwd F n path names g roots = Some (Inr g') \<Longrightarrow>
      set (lookup g x) \<subseteq> set (lookup g' x)"
proof (induction names arbitrary: g)
  case Nil
  then show ?case by simp
next
  case (Cons name rest)
  have u: "set (lookup g x) \<subseteq> set (lookup (AList.update name (lookup g name @ [path]) g) x)"
    by (auto simp: lookup_update)
  from Cons.prems show ?case
  proof (cases rule: findImports_range_Inr_cases)
    case skip
    from Cons.IH [OF skip(3)] show ?thesis .
  next
    case (recurse g1)
    from findImports_lookup_mono [OF assms recurse(4)] Cons.IH [OF recurse(5)] u
    show ?thesis by blast
  next
    case norec
    from Cons.IH [OF norec(3)] u show ?thesis by blast
  qed
qed

lemma allPkgs_range_lookup_mono:
  assumes "\<And>ks. set (range_order E ks) \<subseteq> set ks"
  shows "allPkgs_range E cwd F n pkgs g roots = Some (Inr g') \<Longrightarrow>
      set (lookup g x) \<subseteq> set (lookup g' x)"
proof (induction pkgs arbitrary: g)
  case Nil
  then show ?case by simp
next
  case (Cons pkg rest)
  from Cons.prems obtain g1 where f: "findImports E cwd F n pkg g roots = Some (Inr g1)"
    and r: "allPkgs_range E cwd F n rest g1 roots = Some (Inr g')"
    by (rule allPkgs_range_Inr_cases)
  from findImports_lookup_mono [OF assms f] Cons.IH [OF r] show ?case by blast
qed

lemma findImports_range_records:
  assumes "\<And>ks. set (range_order E ks) \<subseteq> set ks"
  shows "findImports_range E cwd F n path names g roots = Some (Inr g') \<Longrightarrow>
      \<forall>name \<in> set names. flag_std F \<or> \<not> isStdlib name \<Longrightarrow>
      \<forall>name \<in> set names. path \<in> set (lookup g' name)"
proof (induction names arbitrary: g)
  case Nil
  then show ?case by simp
next
  case (Cons name rest)
  from Cons.prems(2) have ok: "flag_std F \<or> \<not> isStdlib name"
    and rest: "\<forall>name \<in> set rest. flag_std F \<or> \<not> isStdlib name" by auto
  have u: "path \<in> set (lookup (AList.update name (lookup g name @ [path]) g) name)"
    by (simp add: lookup_update)
  from Cons.prems(1) show ?case
  proof (cases rule: findImports_range_Inr_cases)
    case skip
    with ok show ?thesis by simp
  next
    case (recurse g1)
    from u findImports_lookup_mono [OF assms recurse(4)]
    have "path \<in> set (lookup g1 name)" by blast
    with findImports_range_lookup_mono [OF assms recurse(5)]
    have "path \<in> set (lookup g' name)" by blast
    with Cons.IH [OF recurse(5) rest] show ?thesis by simp
  next
    case norec
    from u findImports_range_lookup_mono [OF assms norec(3)]
    have "path \<in> set (lookup g' name)" by blast
    with Cons.IH [OF norec(3) rest] show ?thesis by simp
  qed
qed

lemma findImports_records:
  assumes "\<And>ks. set (range_order E ks) = set ks"
    and "findImports E cwd F n q g roots = Some (Inr g')"
    and "q \<noteq> ''C''" and "Import E q cwd ImportAll = (pkg, None)"
    and "name \<in> set (imports_of F pkg (ImportPath pkg \<in> set roots))"
  shows "ImportPath pkg \<in> set (lookup g' name)"
proof -
  have sub: "\<And>ks. set (range_order E ks) \<subseteq> set ks" using assms(1) by simp
  from assms(2) show ?thesis
  proof (cases rule: findImports_Inr_cases)
    case C
    with assms(3) show ?thesis by simp
  next
    case (resolved k pkg')
    with assms(4) have [simp]: "pkg' = pkg" by simp
    let ?names = "range_order E (imports_of F pkg (ImportPath pkg \<in> set roots))"
    have "\<forall>name \<in> set ?names. flag_std F \<or> \<not> isStdlib name"
      by (auto simp: assms(1) set_imports_of)
    from findImports_range_records [OF sub _ this] resolved(4)
    have "\<forall>name \<in> set ?names. ImportPath pkg \<in> set (lookup g' name)" by simp
    with assms(5) show ?thesis by (simp add: assms(1))
  qed
qed

lemma allPkgs_range_records:
  assumes "\<And>ks. set (range_order E ks) = set ks"
  shows "allPkgs_range E cwd F n pkgs g roots = Some (Inr g') \<Longrightarrow> q \<in> set pkgs \<Longrightarrow>
    q \<noteq> ''C'' \<Longrightarrow> Import E q cwd ImportAll = (pkg, None) \<Longrightarrow>
    name \<in> set (imports_of F pkg (ImportPath pkg \<in> set roots)) \<Longrightarrow>
    ImportPath pkg \<in> set (lookup g' name)"
proof (induction pkgs arbitrary: g)
  case Nil
  then show ?case by simp
next
  case (Cons p rest)
  have sub: "\<And>ks. set (range_order E ks) \<subseteq> set ks" using assms by simp
  from Cons.prems(1) obtain g1 where f: "findImports E cwd F n p g roots = Some (Inr g1)"
    and r: "allPkgs_range E cwd F n rest g1 roots = Some (Inr g')"
    by (rule allPkgs_range_Inr_cases)
  show ?case
  proof (cases "q = p")
    case True
    from findImports_records [OF assms f] True Cons.prems(3,4,5)
    have "ImportPath pkg \<in> set (lookup g1 name)" by simp
    with allPkgs_range_lookup_mono [OF sub r] show ?thesis by blast
  next
    case False
    with Cons.prems(2) have "q \<in> set rest" by simp
    from Cons.IH [OF r this Cons.prems(3,4,5)] show ?thesis .
  qed
qed

lemma allPkgs_range_edges:
  assumes "\<And>ks. set (range_order E ks) \<subseteq> set ks"
    and "allPkgs_range E cwd F n pkgs [] roots = Some (Inr g)"
    and "p \<in> set (lookup g name)"
  shows "\<exists>q pkg. Import E q cwd ImportAll = (pkg, None) \<and> ImportPath pkg = p \<and>
           name \<in> set (imports_of F pkg (p \<in> set roots))"
proof -
  let ?J = "\<lambda>name p. \<exists>q pkg. Import E q cwd ImportAll = (pkg, None) \<and> ImportPath pkg = p \<and>
           name \<in> set (imports_of F pkg (p \<in> set roots))"
  let ?Q = "\<lambda>h. \<forall>name p. p \<in> set (lookup h name) \<longrightarrow> ?J name p"
  have "?Q g"
  proof (rule allPkgs_range_invariant [where Q = ?Q, OF assms(1) _ _ assms(2)])
    show "?Q []" by (simp add: lookup_def)
  next
    fix h pkg assume "?Q h"
    then show "?Q (AList.update (ImportPath pkg) (lookup h (ImportPath pkg)) h)" by simp
  next
    fix h q pkg name
    assume h: "?Q h" and i: "Import E q cwd ImportAll = (pkg, None)"
      and n: "name \<in> set (imports_of F pkg (ImportPath pkg \<in> set roots))"
    show "?Q (AList.update name (lookup h name @ [ImportPath pkg]) h)"
    proof (intro allI impI)
      fix name' p assume "p \<in> set (lookup (AList.update name (lookup h name @ [ImportPath pkg]) h) name')"
      then have "p \<in> set (lookup h name') \<or> (name' = name \<and> p = ImportPath pkg)"
        by (auto simp: lookup_update split: if_splits)
      then show "?J name' p"
      proof
        assume "p \<in> set (lookup h name')"
        with h show ?thesis by blast
      next
        assume "name' = name \<and> p = ImportPath pkg"
        with i n show ?thesis by blast
      qed
    qed
  qed
  with assms(3) show ?thesis by blast
qed

lemma lookup_in_keys: "p \<in> set (lookup g k) \<Longrightarrow> k \<in> set (keys g)"
  by (cases "map_of g k") (auto simp: lookup_def keys_def dest: map_of_SomeD intro: rev_image_eqI)

section \<open>Which imports are followed\<close>

text \<open>
  C2. In the map that the traversal builds, an importer \<open>p\<close> is recorded for \<open>name\<close> only if
  \<open>name\<close> is a direct import of \<open>p\<close>, or \<open>p\<close> is in \<^verbatim>\<open>rootPkgs\<close>, \<^verbatim>\<open>-T\<close> is absent and
  \<open>name\<close> is a test import or an external-test import of \<open>p\<close>. Conversely, for a package
  named on the command line whose import path is in \<^verbatim>\<open>rootPkgs\<close>, with \<^verbatim>\<open>-T\<close> absent, every
  test import and external-test import that passes the standard-library filter is recorded.
  So the test imports of a package outside \<^verbatim>\<open>rootPkgs\<close> are never followed.
\<close>

theorem test_imports_only_from_roots:
  assumes "\<And>ks. set (range_order E ks) = set ks"
    and "allPkgs_range E cwd F n pkgs [] rootPkgs = Some (Inr g)"
  shows "(\<forall>name p. p \<in> set (lookup g name) \<longrightarrow>
            (\<exists>q pkg. Import E q cwd ImportAll = (pkg, None) \<and> ImportPath pkg = p \<and>
               (name \<in> set (Imports pkg) \<or>
                p \<in> set rootPkgs \<and> \<not> flag_noTestDeps F \<and>
                name \<in> set (TestImports pkg) \<union> set (XTestImports pkg)))) \<and>
         (\<forall>q pkg name. q \<in> set pkgs \<and> q \<noteq> ''C'' \<and> Import E q cwd ImportAll = (pkg, None) \<and>
            ImportPath pkg \<in> set rootPkgs \<and> \<not> flag_noTestDeps F \<and>
            name \<in> set (TestImports pkg) \<union> set (XTestImports pkg) \<and>
            (flag_std F \<or> \<not> isStdlib name) \<longrightarrow>
            ImportPath pkg \<in> set (lookup g name))"
proof (intro conjI allI impI)
  fix name p assume "p \<in> set (lookup g name)"
  with allPkgs_range_edges [of E cwd F n pkgs rootPkgs g p name] assms
  obtain q pkg where "Import E q cwd ImportAll = (pkg, None)" "ImportPath pkg = p"
    "name \<in> set (imports_of F pkg (p \<in> set rootPkgs))"
    by auto
  then show "\<exists>q pkg. Import E q cwd ImportAll = (pkg, None) \<and> ImportPath pkg = p \<and>
               (name \<in> set (Imports pkg) \<or>
                p \<in> set rootPkgs \<and> \<not> flag_noTestDeps F \<and>
                name \<in> set (TestImports pkg) \<union> set (XTestImports pkg))"
    by (auto simp: set_imports_of split: if_splits)
next
  fix q pkg name
  assume a: "q \<in> set pkgs \<and> q \<noteq> ''C'' \<and> Import E q cwd ImportAll = (pkg, None) \<and>
            ImportPath pkg \<in> set rootPkgs \<and> \<not> flag_noTestDeps F \<and>
            name \<in> set (TestImports pkg) \<union> set (XTestImports pkg) \<and>
            (flag_std F \<or> \<not> isStdlib name)"
  then have "name \<in> set (imports_of F pkg (ImportPath pkg \<in> set rootPkgs))"
    by (auto simp: set_imports_of)
  with allPkgs_range_records [OF assms(1) assms(2), of q pkg name] a
  show "ImportPath pkg \<in> set (lookup g name)" by simp
qed

theorem test_imports_only_from_roots_witness:
  "allPkgs_range env0 ''/w'' (flags0\<lparr>flag_all := True\<rparr>) 3 [''x.io/r1''] [] [''x.io/r1'']
     = Some (Inr graph1)
   \<and> ''x.io/r1'' \<in> set (lookup graph1 ''x.io/t'')
   \<and> ''x.io/a'' \<notin> set (lookup graph1 ''x.io/t'')"
proof -
  have h1: "\<And>ks. set (range_order env0 ks) = set ks" by (simp add: env0_def)
  have h2: "allPkgs_range env0 ''/w'' (flags0\<lparr>flag_all := True\<rparr>) 3 [''x.io/r1''] [] [''x.io/r1'']
     = Some (Inr graph1)"
    by (simp add: run0 graph1_def)
  have h3: "Import env0 ''x.io/r1'' ''/w'' ImportAll
      = (pkg0 ''x.io/r1'' [''x.io/a'', ''fmt''] [''x.io/t''], None)"
    by (simp add: env0_def Import0_def)
  have "''x.io/r1'' \<in> set (lookup graph1 ''x.io/t'')"
    using test_imports_only_from_roots [OF h1 h2] h3
    by (auto simp: pkg0_def flags0_def isStdlib_def)
  moreover have "''x.io/a'' \<notin> set (lookup graph1 ''x.io/t'')"
    by (simp add: graph1_def lookup_def)
  ultimately show ?thesis using h2 by simp
qed

section \<open>The pseudo-package C\<close>

text \<open>
  C6, as the code has it. \<^verbatim>\<open>findImports\<close> returns at once on \<open>C\<close>, leaving the map as it is, so
  \<open>C\<close> is never resolved. Whether \<open>C\<close> is recorded depends on \<^verbatim>\<open>-stdlib\<close>. Without it, \<open>C\<close>
  is filtered out like every path classified as standard library, and it is not a key of
  the map unless some package resolves to the import path \<open>C\<close>. With it, a package named on
  the command line that imports \<open>C\<close> is recorded as an importer of the key \<open>C\<close>.
\<close>

theorem C_never_resolved:
  assumes "\<And>ks. set (range_order E ks) = set ks"
    and "allPkgs_range E cwd F n pkgs [] rootPkgs = Some (Inr g)"
  shows "findImports E cwd F m ''C'' g' rootPkgs = Some (Inr g') \<and>
         (\<not> flag_std F \<and> (\<forall>q pkg. Import E q cwd ImportAll = (pkg, None) \<longrightarrow> ImportPath pkg \<noteq> ''C'')
            \<longrightarrow> ''C'' \<notin> set (keys g)) \<and>
         (flag_std F \<longrightarrow>
            (\<forall>q pkg. q \<in> set pkgs \<and> q \<noteq> ''C'' \<and> Import E q cwd ImportAll = (pkg, None) \<and>
               ''C'' \<in> set (Imports pkg) \<longrightarrow>
               ''C'' \<in> set (keys g) \<and> ImportPath pkg \<in> set (lookup g ''C'')))"
proof (intro conjI impI allI)
  show "findImports E cwd F m ''C'' g' rootPkgs = Some (Inr g')" by simp
next
  assume a: "\<not> flag_std F \<and> (\<forall>q pkg. Import E q cwd ImportAll = (pkg, None) \<longrightarrow> ImportPath pkg \<noteq> ''C'')"
  let ?Q = "\<lambda>h. ''C'' \<notin> set (keys h)"
  have sub: "\<And>ks. set (range_order E ks) \<subseteq> set ks" using assms(1) by simp
  have std: "isStdlib ''C''" by (simp add: isStdlib_def)
  show "?Q g"
  proof (rule allPkgs_range_invariant [where Q = ?Q, OF sub _ _ assms(2)])
    show "?Q []" by (simp add: keys_def)
  next
    fix h q pkg assume h: "?Q h" and i: "Import E q cwd ImportAll = (pkg, None)"
    from a i have "ImportPath pkg \<noteq> ''C''" by blast
    with h show "?Q (AList.update (ImportPath pkg) (lookup h (ImportPath pkg)) h)"
      by (auto simp: keys_update)
  next
    fix h q pkg name
    assume "?Q h" "flag_std F \<or> \<not> isStdlib name"
    with a std have "name \<noteq> ''C''" by auto
    with \<open>?Q h\<close> show "?Q (AList.update name (lookup h name @ [ImportPath pkg]) h)"
      by (simp add: keys_update)
  qed
next
  fix q pkg
  assume s: "flag_std F"
    and a: "q \<in> set pkgs \<and> q \<noteq> ''C'' \<and> Import E q cwd ImportAll = (pkg, None) \<and>
               ''C'' \<in> set (Imports pkg)"
  then have "''C'' \<in> set (imports_of F pkg (ImportPath pkg \<in> set rootPkgs))"
    by (auto simp: set_imports_of)
  with allPkgs_range_records [OF assms(1) assms(2), of q pkg "''C''"] a
  have "ImportPath pkg \<in> set (lookup g ''C'')" by simp
  then show "''C'' \<in> set (keys g)" "ImportPath pkg \<in> set (lookup g ''C'')"
    by (simp_all add: lookup_in_keys)
qed

theorem C_never_resolved_witness:
  "allPkgs_range env0 ''/w'' (flags0\<lparr>flag_all := True\<rparr>) 3 [''x.io/r1''] [] [''x.io/r1'']
     = Some (Inr graph1)
   \<and> ''C'' \<notin> set (keys graph1)"
proof -
  have h1: "\<And>ks. set (range_order env0 ks) = set ks" by (simp add: env0_def)
  have h2: "allPkgs_range env0 ''/w'' (flags0\<lparr>flag_all := True\<rparr>) 3 [''x.io/r1''] [] [''x.io/r1'']
     = Some (Inr graph1)"
    by (simp add: run0 graph1_def)
  have h3: "\<not> flag_std (flags0\<lparr>flag_all := True\<rparr>)" by (simp add: flags0_def)
  have h4: "\<forall>q pkg. Import env0 q ''/w'' ImportAll = (pkg, None) \<longrightarrow> ImportPath pkg \<noteq> ''C''"
    by (auto simp: env0_def Import0_def pkg0_def split: if_splits)
  from C_never_resolved [OF h1 h2] h3 h4 have "''C'' \<notin> set (keys graph1)" by blast
  with h2 show ?thesis by simp
qed

text \<open>
  With \<^verbatim>\<open>-stdlib\<close>, the package \<open>x.io/a\<close>, which imports \<open>C\<close>, makes \<open>C\<close> a key of the map and
  a line of the output.
\<close>

theorem C_listed_with_stdlib:
  "main env0 (flags0\<lparr>flag_std := True\<rparr>) [''x.io/a''] 2
     = Some (Inr [PkgLine ''C'', PkgLine ''x.io/b''])
   \<and> allPkgs_range env0 ''/w'' (flags0\<lparr>flag_std := True\<rparr>) 2 [''x.io/a''] [] [''x.io/a'']
     = Some (Inr [(''x.io/a'', []), (''x.io/b'', [''x.io/a'']), (''C'', [''x.io/a''])])"
  by (simp add: run0 main_def why_flags_def prune_def delete_roots_def render_def
      render_one_def keys_def)

section \<open>A root met again as an import\<close>

text \<open>
  C7 at a concrete input. \<open>x.io/r1\<close> and \<open>x.io/r2\<close> are roots and \<open>x.io/r2\<close> imports
  \<open>x.io/r1\<close>. After \<^verbatim>\<open>findImports\<close> on \<open>x.io/r1\<close> the map has an entry for \<open>x.io/r1\<close>, which is
  empty, and \<open>x.io/a\<close> has the one importer \<open>x.io/r1\<close>. When \<^verbatim>\<open>findImports\<close> on \<open>x.io/r2\<close> then
  meets \<open>x.io/r1\<close>, the test \<^verbatim>\<open>allPkgs[name] != nil\<close> fails on the empty entry and \<open>x.io/r1\<close> is
  processed a second time: its imports get it as an importer once more.
\<close>

theorem root_with_empty_entry_reprocessed:
  "findImports env0 ''/w'' (flags0\<lparr>flag_all := True\<rparr>) 3 ''x.io/r1'' [] [''x.io/r1'', ''x.io/r2'']
     = Some (Inr graph1)
   \<and> ''x.io/r1'' \<in> set (keys graph1) \<and> lookup graph1 ''x.io/r1'' = []
   \<and> lookup graph1 ''x.io/a'' = [''x.io/r1'']
   \<and> findImports env0 ''/w'' (flags0\<lparr>flag_all := True\<rparr>) 3 ''x.io/r2'' graph1 [''x.io/r1'', ''x.io/r2'']
     = Some (Inr [(''x.io/r1'', [''x.io/r2'']), (''x.io/a'', [''x.io/r1'', ''x.io/r1'']),
                  (''x.io/b'', [''x.io/a'']), (''x.io/t'', [''x.io/r1'', ''x.io/r1'']),
                  (''x.io/r2'', [])])"
  by (simp add: run0 graph1_def keys_def)

section \<open>Errors and termination of findImports\<close>

lemma findImports_Inl_cases:
  assumes "findImports E cwd F n q g roots = Some (Inl e)"
  obtains (failed) k pkg err where "q \<noteq> ''C''" "n = Suc k"
      "Import E q cwd ImportAll = (pkg, Some err)" "e = CannotFind q (BuildError err)"
  | (inner) k pkg where "q \<noteq> ''C''" "n = Suc k" "Import E q cwd ImportAll = (pkg, None)"
      "findImports_range E cwd F k (ImportPath pkg)
         (range_order E (imports_of F pkg (ImportPath pkg \<in> set roots)))
         (AList.update (ImportPath pkg) (lookup g (ImportPath pkg)) g) roots = Some (Inl e)"
proof -
  from assms have c: "q \<noteq> ''C''" by auto
  with assms obtain k where n: "n = Suc k" by (cases n) (simp_all add: findImports_0)
  obtain pkg err where i: "Import E q cwd ImportAll = (pkg, err)" by (cases "Import E q cwd ImportAll")
  show ?thesis
  proof (cases err)
    case None
    with assms c n i that(2) show ?thesis by (simp add: findImports_Suc)
  next
    case (Some x)
    with assms c n i that(1) show ?thesis by (simp add: findImports_Suc)
  qed
qed

lemma findImports_range_Inl_cases:
  assumes "findImports_range E cwd F n path (name # rest) g roots = Some (Inl e)"
  obtains (here) "flag_std F \<or> \<not> isStdlib name" "flag_all F" "lookup g name = []"
      "findImports E cwd F n name (AList.update name (lookup g name @ [path]) g) roots = Some (Inl e)"
  | (later) g1 where "findImports_range E cwd F n path rest g1 roots = Some (Inl e)"
proof (cases "\<not> flag_std F \<and> isStdlib name")
  case True
  with assms that(2) show ?thesis by simp
next
  case False
  show ?thesis
  proof (cases "flag_all F \<and> lookup g name = []")
    case True
    with assms False that show ?thesis
      by (auto simp: Let_def split: option.splits sum.splits)
  next
    case nr: False
    with assms False that(2) show ?thesis by (auto simp: Let_def)
  qed
qed

lemma findImports_error:
  "findImports E cwd F n q g roots = Some (Inl e) \<Longrightarrow>
     \<exists>name err. e = CannotFind name (BuildError err) \<and> name \<noteq> ''C'' \<and>
       snd (Import E name cwd ImportAll) = Some err"
proof -
  let ?R = "\<lambda>e. \<exists>name err. e = CannotFind name (BuildError err) \<and> name \<noteq> ''C'' \<and>
       snd (Import E name cwd ImportAll) = Some err"
  let ?PF = "\<lambda>n. \<forall>q g e. findImports E cwd F n q g roots = Some (Inl e) \<longrightarrow> ?R e"
  let ?PR = "\<lambda>n. \<forall>path names g e. findImports_range E cwd F n path names g roots = Some (Inl e) \<longrightarrow> ?R e"
  have range: "?PR n" if pf: "?PF n" for n
  proof (intro allI impI)
    fix path names g e
    assume "findImports_range E cwd F n path names g roots = Some (Inl e)"
    then show "?R e"
    proof (induction names arbitrary: g)
      case Nil
      then show ?case by simp
    next
      case (Cons name rest)
      from Cons.prems show ?case
      proof (cases rule: findImports_range_Inl_cases)
        case here
        with pf show ?thesis by blast
      next
        case (later g1)
        from Cons.IH [OF this] show ?thesis .
      qed
    qed
  qed
  have findS: "?PF (Suc k)" if pr: "?PR k" for k
  proof (intro allI impI)
    fix q g e assume "findImports E cwd F (Suc k) q g roots = Some (Inl e)"
    then show "?R e"
    proof (cases rule: findImports_Inl_cases)
      case (failed k' pkg err)
      then show ?thesis by auto
    next
      case (inner k' pkg)
      with pr show ?thesis by blast
    qed
  qed
  have "?PF n"
  proof (induction n)
    case 0
    show ?case by (auto elim: findImports_Inl_cases)
  next
    case (Suc k)
    from findS [OF range [OF Suc]] show ?case .
  qed
  then show "findImports E cwd F n q g roots = Some (Inl e) \<Longrightarrow> ?R e" by blast
qed

lemma allPkgs_range_error:
  "allPkgs_range E cwd F n pkgs g roots = Some (Inl f) \<Longrightarrow>
     \<exists>root name err. f = FatalCannotFindImports root (CannotFind name (BuildError err)) \<and>
       root \<in> set pkgs \<and> name \<noteq> ''C'' \<and> snd (Import E name cwd ImportAll) = Some err"
proof (induction pkgs arbitrary: g)
  case Nil
  then show ?case by simp
next
  case (Cons p rest)
  show ?case
  proof (cases "findImports E cwd F n p g roots")
    case None
    with Cons.prems show ?thesis by simp
  next
    case (Some r)
    show ?thesis
    proof (cases r)
      case (Inl e)
      with Some Cons.prems have f: "f = FatalCannotFindImports p e" by simp
      from findImports_error [of E cwd F n p g roots e] Some Inl
      obtain name err where "e = CannotFind name (BuildError err)" "name \<noteq> ''C''"
        "snd (Import E name cwd ImportAll) = Some err" by auto
      with f show ?thesis by auto
    next
      case (Inr g1)
      with Some Cons.prems have "allPkgs_range E cwd F n rest g1 roots = Some (Inl f)" by simp
      from Cons.IH [OF this] show ?thesis by auto
    qed
  qed
qed

lemma rootPkgs_range_Inl:
  "rootPkgs_range E cwd pkgs roots = Inl f \<Longrightarrow>
     \<exists>xs p ys err. pkgs = xs @ p # ys \<and> (\<forall>x \<in> set xs. snd (Import E x cwd FindOnly) = None) \<and>
       snd (Import E p cwd FindOnly) = Some err \<and> f = FatalCannotFind p (BuildError err)"
proof (induction pkgs arbitrary: roots)
  case Nil
  then show ?case by simp
next
  case (Cons p rest)
  obtain pk err where i: "Import E p cwd FindOnly = (pk, err)" by (cases "Import E p cwd FindOnly")
  show ?case
  proof (cases err)
    case (Some x)
    with Cons.prems i have "f = FatalCannotFind p (BuildError x)" by simp
    with Some i have "p # rest = [] @ p # rest \<and> (\<forall>x \<in> set []. snd (Import E x cwd FindOnly) = None) \<and>
       snd (Import E p cwd FindOnly) = Some x \<and> f = FatalCannotFind p (BuildError x)" by simp
    then show ?thesis by blast
  next
    case None
    with Cons.prems i have "rootPkgs_range E cwd rest (set_add (ImportPath pk) roots) = Inl f"
      by simp
    from Cons.IH [OF this] obtain xs q ys e where
      "rest = xs @ q # ys" "\<forall>x \<in> set xs. snd (Import E x cwd FindOnly) = None"
      "snd (Import E q cwd FindOnly) = Some e" "f = FatalCannotFind q (BuildError e)" by blast
    with None i have "p # rest = (p # xs) @ q # ys \<and>
       (\<forall>x \<in> set (p # xs). snd (Import E x cwd FindOnly) = None) \<and>
       snd (Import E q cwd FindOnly) = Some e \<and> f = FatalCannotFind q (BuildError e)" by simp
    then show ?thesis by blast
  qed
qed

lemma rootPkgs_range_Inr:
  "rootPkgs_range E cwd pkgs roots = Inr roots' \<Longrightarrow>
     (\<forall>p \<in> set pkgs. snd (Import E p cwd FindOnly) = None) \<and>
     set roots' = set roots \<union> (\<lambda>p. ImportPath (fst (Import E p cwd FindOnly))) ` set pkgs"
proof (induction pkgs arbitrary: roots)
  case Nil
  then show ?case by simp
next
  case (Cons p rest)
  obtain pk err where i: "Import E p cwd FindOnly = (pk, err)" by (cases "Import E p cwd FindOnly")
  with Cons.prems have e: "err = None" by (cases err) simp_all
  with Cons.prems i have "rootPkgs_range E cwd rest (set_add (ImportPath pk) roots) = Inr roots'"
    by simp
  from Cons.IH [OF this] i e show ?case by auto
qed

lemma findImports_new_entries_resolved:
  assumes "flag_all F"
  shows "findImports E cwd F n q g roots = Some (Inr g') \<Longrightarrow>
     (q = ''C'' \<or> snd (Import E q cwd ImportAll) = None) \<and>
     (\<forall>x. lookup g' x \<noteq> [] \<longrightarrow> lookup g x \<noteq> [] \<or> x = ''C'' \<or> snd (Import E x cwd ImportAll) = None)"
proof -
  let ?ok = "\<lambda>x. x = ''C'' \<or> snd (Import E x cwd ImportAll) = None"
  let ?N = "\<lambda>g g'. \<forall>x. lookup g' x \<noteq> [] \<longrightarrow> lookup g x \<noteq> [] \<or> ?ok x"
  let ?PF = "\<lambda>n. \<forall>q g g'. findImports E cwd F n q g roots = Some (Inr g') \<longrightarrow> ?ok q \<and> ?N g g'"
  let ?PR = "\<lambda>n. \<forall>path names g g'. findImports_range E cwd F n path names g roots = Some (Inr g') \<longrightarrow> ?N g g'"
  have range: "?PR n" if pf: "?PF n" for n
  proof (intro allI impI)
    fix path names g g' x
    assume "findImports_range E cwd F n path names g roots = Some (Inr g')" "lookup g' x \<noteq> []"
    then show "lookup g x \<noteq> [] \<or> ?ok x"
    proof (induction names arbitrary: g)
      case Nil
      then show ?case by simp
    next
      case (Cons name rest)
      let ?ga = "AList.update name (lookup g name @ [path]) g"
      have u: "lookup g x \<noteq> [] \<or> x = name" if "lookup ?ga x \<noteq> []"
        using that by (auto simp: lookup_update split: if_splits)
      from Cons.prems(1) show ?case
      proof (cases rule: findImports_range_Inr_cases)
        case skip
        from Cons.IH [OF skip(3) Cons.prems(2)] show ?thesis .
      next
        case (recurse g1)
        from pf [rule_format, OF recurse(4)] have "?ok name \<and> ?N ?ga g1" by simp
        then have okn: "?ok name" and n1: "?N ?ga g1" by simp_all
        from Cons.IH [OF recurse(5) Cons.prems(2)] have "lookup g1 x \<noteq> [] \<or> ?ok x" .
        with n1 [rule_format, of x] have "lookup ?ga x \<noteq> [] \<or> ?ok x" by fastforce
        then show ?thesis
        proof
          assume "lookup ?ga x \<noteq> []"
          from u [OF this] okn show ?thesis by fastforce
        qed simp
      next
        case norec
        with assms have nn: "lookup g name \<noteq> []" by simp
        from Cons.IH [OF norec(3) Cons.prems(2)] have "lookup ?ga x \<noteq> [] \<or> ?ok x" .
        then show ?thesis
        proof
          assume "lookup ?ga x \<noteq> []"
          from u [OF this] nn show ?thesis by fastforce
        qed simp
      qed
    qed
  qed
  have findS: "?PF (Suc k)" if pr: "?PR k" for k
  proof (intro allI impI)
    fix q g g' assume "findImports E cwd F (Suc k) q g roots = Some (Inr g')"
    then show "?ok q \<and> ?N g g'"
    proof (cases rule: findImports_Inr_cases)
      case C
      then show ?thesis by simp
    next
      case (resolved k' pkg)
      from resolved(2) have "k' = k" by simp
      with pr [rule_format, OF resolved(4) [unfolded this]]
      have "?N (AList.update (ImportPath pkg) (lookup g (ImportPath pkg)) g) g'"
        by simp
      with resolved(3) show ?thesis by simp
    qed
  qed
  have pf: "?PF n"
  proof (induction n)
    case 0
    show ?case by (auto elim: findImports_Inr_cases)
  next
    case (Suc k)
    from findS [OF range [OF Suc]] show ?case .
  qed
  show "findImports E cwd F n q g roots = Some (Inr g') \<Longrightarrow> ?ok q \<and> ?N g g'"
    by (rule pf [rule_format])
qed


lemma findImports_returns:
  assumes perm: "\<And>ks. set (range_order E ks) \<subseteq> set ks"
    and fin: "finite U"
    and closed: "\<And>q pkg. Import E q cwd ImportAll = (pkg, None) \<Longrightarrow>
        set (Imports pkg) \<union> set (TestImports pkg) \<union> set (XTestImports pkg) \<subseteq> U"
  shows "card {u \<in> U. lookup g u = []} < n \<Longrightarrow> \<exists>r. findImports E cwd F n q g roots = Some r"
proof -
  let ?Z = "\<lambda>g. {u \<in> U. lookup g u = []}"
  let ?PF = "\<lambda>n. \<forall>q g. card (?Z g) < n \<longrightarrow> (\<exists>r. findImports E cwd F n q g roots = Some r)"
  let ?PR = "\<lambda>n. \<forall>path names g. card (?Z g) \<le> n \<longrightarrow> set names \<subseteq> U \<longrightarrow>
      (\<exists>r. findImports_range E cwd F n path names g roots = Some r)"
  have finZ: "finite (?Z g)" for g using fin by simp
  have range: "?PR n" if pf: "?PF n" for n
  proof (intro allI impI)
    fix path names g
    assume "card (?Z g) \<le> n" "set names \<subseteq> U"
    then show "\<exists>r. findImports_range E cwd F n path names g roots = Some r"
    proof (induction names arbitrary: g)
      case Nil
      then show ?case by simp
    next
      case (Cons name rest)
      let ?ga = "AList.update name (lookup g name @ [path]) g"
      from Cons.prems have nU: "name \<in> U" and rU: "set rest \<subseteq> U" by simp_all
      have za: "?Z ?ga = ?Z g - {name}" by (auto simp: lookup_update)
      show ?case
      proof (cases "\<not> flag_std F \<and> isStdlib name")
        case True
        with Cons.IH [OF Cons.prems(1) rU] show ?thesis by simp
      next
        case False
        have le: "card (?Z ?ga) \<le> n"
          using Cons.prems(1) card_mono [OF finZ, of "?Z ?ga" g] za by auto
        show ?thesis
        proof (cases "flag_all F \<and> lookup g name = []")
          case nr: False
          with False Cons.IH [OF le rU] show ?thesis by (auto simp: Let_def)
        next
          case True
          with nU have "name \<in> ?Z g" by simp
          then have "card (?Z g - {name}) < card (?Z g)"
            by (intro card_Diff1_less finZ)
          with za Cons.prems(1) have "card (?Z ?ga) < n" by simp
          with pf obtain r where r: "findImports E cwd F n name ?ga roots = Some r" by blast
          have eq: "findImports_range E cwd F n path (name # rest) g roots =
              (case findImports E cwd F n name ?ga roots of
                 None \<Rightarrow> None
               | Some (Inl err) \<Rightarrow> Some (Inl err)
               | Some (Inr g'') \<Rightarrow> findImports_range E cwd F n path rest g'' roots)"
            using True False by (auto simp: Let_def)
          show ?thesis
          proof (cases r)
            case (Inl e)
            show ?thesis unfolding eq r Inl by simp
          next
            case (Inr g1)
            have "?Z g1 \<subseteq> ?Z ?ga"
            proof
              fix u assume u: "u \<in> ?Z g1"
              from findImports_lookup_mono [OF perm r [unfolded Inr], of u] u
              have "set (lookup ?ga u) \<subseteq> {}" by simp
              with u show "u \<in> ?Z ?ga" by simp
            qed
            then have "card (?Z g1) \<le> card (?Z ?ga)" by (intro card_mono finZ)
            with le have "card (?Z g1) \<le> n" by simp
            from Cons.IH [OF this rU] show ?thesis unfolding eq r Inr by simp
          qed
        qed
      qed
    qed
  qed
  have findS: "?PF (Suc k)" if pr: "?PR k" for k
  proof (intro allI impI)
    fix q g assume c: "card (?Z g) < Suc k"
    show "\<exists>r. findImports E cwd F (Suc k) q g roots = Some r"
    proof (cases "q = ''C''")
      case True
      then show ?thesis by simp
    next
      case False
      obtain pkg err where i: "Import E q cwd ImportAll = (pkg, err)"
        by (cases "Import E q cwd ImportAll")
      show ?thesis
      proof (cases err)
        case (Some e)
        with False i show ?thesis by (simp add: findImports_Suc)
      next
        case None
        let ?g1 = "AList.update (ImportPath pkg) (lookup g (ImportPath pkg)) g"
        let ?names = "range_order E (imports_of F pkg (ImportPath pkg \<in> set roots))"
        have "?Z ?g1 = ?Z g" by simp
        with c have c1: "card (?Z ?g1) \<le> k" by simp
        have "set ?names \<subseteq> set (imports_of F pkg (ImportPath pkg \<in> set roots))" by (rule perm)
        also have "\<dots> \<subseteq> U" using closed [OF i [unfolded None]] by (auto simp: set_imports_of split: if_splits)
        finally have "set ?names \<subseteq> U" .
        with pr c1 have "\<exists>r. findImports_range E cwd F k (ImportPath pkg) ?names ?g1 roots = Some r"
          by blast
        with False i None show ?thesis by (simp add: findImports_Suc)
      qed
    qed
  qed
  have pf: "?PF n"
  proof (induction n)
    case 0
    show ?case by simp
  next
    case (Suc k)
    from findS [OF range [OF Suc]] show ?case .
  qed
  show "card (?Z g) < n \<Longrightarrow> \<exists>r. findImports E cwd F n q g roots = Some r"
    by (rule pf [rule_format])
qed

lemma allPkgs_range_returns:
  assumes perm: "\<And>ks. set (range_order E ks) \<subseteq> set ks"
    and fin: "finite U"
    and closed: "\<And>q pkg. Import E q cwd ImportAll = (pkg, None) \<Longrightarrow>
        set (Imports pkg) \<union> set (TestImports pkg) \<union> set (XTestImports pkg) \<subseteq> U"
    and n: "card U < n"
  shows "\<exists>r. allPkgs_range E cwd F n pkgs g roots = Some r"
proof (induction pkgs arbitrary: g)
  case Nil
  then show ?case by simp
next
  case (Cons p rest)
  have "card {u \<in> U. lookup g u = []} \<le> card U" by (intro card_mono fin) auto
  with n have c: "card {u \<in> U. lookup g u = []} < n" by simp
  have "\<exists>r. findImports E cwd F n p g roots = Some r"
    by (rule findImports_returns [where U = U, OF perm fin closed c])
  then
  obtain r where r: "findImports E cwd F n p g roots = Some r" by blast
  show ?case
  proof (cases r)
    case (Inl e)
    with r show ?thesis by simp
  next
    case (Inr g1)
    with r Cons.IH [of g1] show ?thesis by simp
  qed
qed

section \<open>What a successful traversal has resolved\<close>

lemma followed_mono:
  assumes "\<And>y. set (lookup h y) \<subseteq> set (lookup h' y)" and "followed E cwd F roots h x"
  shows "followed E cwd F roots h' x"
  using assms unfolding followed_def Let_def by blast

lemma findImports_followed_self:
  assumes "\<And>ks. set (range_order E ks) = set ks"
    and "findImports E cwd F n q g roots = Some (Inr g')"
  shows "followed E cwd F roots g' q"
proof (cases "q = ''C''")
  case True
  then show ?thesis by (simp add: followed_def)
next
  case False
  from assms(2) False obtain k pkg where i: "Import E q cwd ImportAll = (pkg, None)"
    by (cases rule: findImports_Inr_cases) auto
  from findImports_records [OF assms(1) assms(2) False i] i
  show ?thesis by (simp add: followed_def)
qed

lemma findImports_followed:
  assumes perm: "\<And>ks. set (range_order E ks) = set ks" and all: "flag_all F"
  shows "findImports E cwd F n q g roots = Some (Inr g') \<Longrightarrow>
     \<forall>x. lookup g' x \<noteq> [] \<longrightarrow> lookup g x \<noteq> [] \<or> followed E cwd F roots g' x"
    and "findImports_range E cwd F n path names g roots = Some (Inr g') \<Longrightarrow>
     \<forall>x. lookup g' x \<noteq> [] \<longrightarrow> lookup g x \<noteq> [] \<or> followed E cwd F roots g' x"
proof -
  have sub: "\<And>ks. set (range_order E ks) \<subseteq> set ks" using perm by simp
  let ?N = "\<lambda>g g'. \<forall>x. lookup g' x \<noteq> [] \<longrightarrow> lookup g x \<noteq> [] \<or> followed E cwd F roots g' x"
  let ?PF = "\<lambda>n. \<forall>q g g'. findImports E cwd F n q g roots = Some (Inr g') \<longrightarrow> ?N g g'"
  let ?PR = "\<lambda>n. \<forall>path names g g'. findImports_range E cwd F n path names g roots = Some (Inr g') \<longrightarrow> ?N g g'"
  have range: "?PR n" if pf: "?PF n" for n
  proof (intro allI impI)
    fix path names g g' x
    assume "findImports_range E cwd F n path names g roots = Some (Inr g')" "lookup g' x \<noteq> []"
    then show "lookup g x \<noteq> [] \<or> followed E cwd F roots g' x"
    proof (induction names arbitrary: g)
      case Nil
      then show ?case by simp
    next
      case (Cons name rest)
      let ?ga = "AList.update name (lookup g name @ [path]) g"
      have u: "lookup g x \<noteq> [] \<or> x = name" if "lookup ?ga x \<noteq> []"
        using that by (auto simp: lookup_update split: if_splits)
      from Cons.prems(1) show ?case
      proof (cases rule: findImports_range_Inr_cases)
        case skip
        from Cons.IH [OF skip(3) Cons.prems(2)] show ?thesis .
      next
        case (recurse g1)
        have m: "\<And>y. set (lookup g1 y) \<subseteq> set (lookup g' y)"
          by (rule findImports_range_lookup_mono [OF sub recurse(5)])
        from findImports_followed_self [OF perm recurse(4)]
        have "followed E cwd F roots g1 name" .
        from followed_mono [OF m this] have fn: "followed E cwd F roots g' name" .
        from pf [THEN spec, THEN spec, THEN spec, THEN mp, OF recurse(4)]
        have n1: "?N ?ga g1" .
        from Cons.IH [OF recurse(5) Cons.prems(2)]
        have "lookup g1 x \<noteq> [] \<or> followed E cwd F roots g' x" .
        then show ?thesis
        proof
          assume "lookup g1 x \<noteq> []"
          with n1 [rule_format, of x] have "lookup ?ga x \<noteq> [] \<or> followed E cwd F roots g1 x"
            by simp
          then show ?thesis
          proof
            assume "lookup ?ga x \<noteq> []"
            from u [OF this] fn show ?thesis by fastforce
          next
            assume "followed E cwd F roots g1 x"
            from followed_mono [OF m this] show ?thesis by simp
          qed
        qed simp
      next
        case norec
        with all have nn: "lookup g name \<noteq> []" by simp
        from Cons.IH [OF norec(3) Cons.prems(2)]
        have "lookup ?ga x \<noteq> [] \<or> followed E cwd F roots g' x" .
        then show ?thesis
        proof
          assume "lookup ?ga x \<noteq> []"
          from u [OF this] nn show ?thesis by fastforce
        qed simp
      qed
    qed
  qed
  have findS: "?PF (Suc k)" if pr: "?PR k" for k
  proof (intro allI impI)
    fix q g g' x
    assume "findImports E cwd F (Suc k) q g roots = Some (Inr g')" and x: "lookup g' x \<noteq> []"
    then show "lookup g x \<noteq> [] \<or> followed E cwd F roots g' x"
    proof (cases rule: findImports_Inr_cases)
      case C
      with x show ?thesis by simp
    next
      case (resolved k' pkg)
      from resolved(2) have "k' = k" by simp
      with pr [THEN spec, THEN spec, THEN spec, THEN spec, THEN mp, OF resolved(4) [unfolded this]] x
      show ?thesis by simp
    qed
  qed
  have pf: "?PF n"
  proof (induction n)
    case 0
    show ?case by (auto elim: findImports_Inr_cases)
  next
    case (Suc k)
    from findS [OF range [OF Suc]] show ?case .
  qed
  show "findImports E cwd F n q g roots = Some (Inr g') \<Longrightarrow> ?N g g'"
    by (rule pf [THEN spec, THEN spec, THEN spec, THEN mp])
  show "findImports_range E cwd F n path names g roots = Some (Inr g') \<Longrightarrow> ?N g g'"
    by (rule range [OF pf, THEN spec, THEN spec, THEN spec, THEN spec, THEN mp])
qed

lemma allPkgs_range_followed:
  assumes perm: "\<And>ks. set (range_order E ks) = set ks"
  shows "allPkgs_range E cwd F n pkgs g roots = Some (Inr g') \<Longrightarrow>
     (\<forall>q \<in> set pkgs. followed E cwd F roots g' q) \<and>
     (flag_all F \<longrightarrow> (\<forall>x. lookup g' x \<noteq> [] \<longrightarrow> lookup g x \<noteq> [] \<or> followed E cwd F roots g' x))"
proof (induction pkgs arbitrary: g)
  case Nil
  then show ?case by simp
next
  case (Cons p rest)
  have sub: "\<And>ks. set (range_order E ks) \<subseteq> set ks" using perm by simp
  from Cons.prems obtain g1 where f: "findImports E cwd F n p g roots = Some (Inr g1)"
    and r: "allPkgs_range E cwd F n rest g1 roots = Some (Inr g')"
    by (rule allPkgs_range_Inr_cases)
  have m: "\<And>y. set (lookup g1 y) \<subseteq> set (lookup g' y)"
    by (rule allPkgs_range_lookup_mono [OF sub r])
  note ih = Cons.IH [OF r]
  from followed_mono [OF m findImports_followed_self [OF perm f]]
  have a: "followed E cwd F roots g' p" .
  have b: "lookup g x \<noteq> [] \<or> followed E cwd F roots g' x"
    if all: "flag_all F" and x: "lookup g' x \<noteq> []" for x
  proof -
    from ih all x have "lookup g1 x \<noteq> [] \<or> followed E cwd F roots g' x" by simp
    then show ?thesis
    proof
      assume "lookup g1 x \<noteq> []"
      with findImports_followed(1) [OF perm all f, rule_format, of x]
      have "lookup g x \<noteq> [] \<or> followed E cwd F roots g1 x" by simp
      then show ?thesis
      proof
        assume "followed E cwd F roots g1 x"
        from followed_mono [OF m this] show ?thesis by simp
      qed simp
    qed simp
  qed
  from a ih b show ?case by simp
qed

lemma reachable_followed:
  assumes perm: "\<And>ks. set (range_order E ks) = set ks"
    and build: "allPkgs_range E cwd F n pkgs [] roots = Some (Inr g)"
    and all: "flag_all F"
    and q: "q \<in> set pkgs"
    and reach: "(q, y) \<in> (deps E cwd F roots)\<^sup>*"
  shows "followed E cwd F roots g y"
  using reach
proof (induction rule: rtrancl_induct)
  case base
  from allPkgs_range_followed [OF perm build] q show ?case by simp
next
  case (step y z)
  from step.hyps(2) obtain pkg where "y \<noteq> ''C''" and i: "Import E y cwd ImportAll = (pkg, None)"
    and z: "z \<in> set (imports_of F pkg (ImportPath pkg \<in> set roots))"
    by (auto simp: deps_def)
  with step.IH have "ImportPath pkg \<in> set (lookup g z)"
    by (simp add: followed_def)
  then have "lookup g z \<noteq> []" by auto
  with allPkgs_range_followed [OF perm build] all show ?case by (simp add: lookup_def)
qed


lemma nodes_update: "set (nodes (AList.update k v h)) \<subseteq> insert k (set (nodes h)) \<union> set v"
proof -
  have "set (concat (map snd (AList.update k v h))) \<subseteq> set (concat (map snd h)) \<union> set v"
    by (induction h) auto
  then show ?thesis using keys_update [of k v h] by (auto simp: nodes_def)
qed

lemma lookup_subset_nodes: "set (lookup h k) \<subseteq> set (nodes h)"
  using lookup_in_nodes by blast

lemma allPkgs_range_nodes:
  assumes perm: "\<And>ks. set (range_order E ks) \<subseteq> set ks"
    and closed: "\<And>q pkg. Import E q cwd ImportAll = (pkg, None) \<Longrightarrow> ImportPath pkg \<in> U \<and>
        set (Imports pkg) \<union> set (TestImports pkg) \<union> set (XTestImports pkg) \<subseteq> U"
    and build: "allPkgs_range E cwd F n pkgs [] roots = Some (Inr g)"
  shows "set (nodes g) \<subseteq> U"
proof -
  let ?Q = "\<lambda>h. set (nodes h) \<subseteq> U"
  show "?Q g"
  proof (rule allPkgs_range_invariant [where Q = ?Q, OF perm _ _ build])
    show "?Q []" by (simp add: nodes_def keys_def)
  next
    fix h q pkg assume h: "?Q h" and i: "Import E q cwd ImportAll = (pkg, None)"
    from closed [OF i] have "ImportPath pkg \<in> U" by simp
    with h nodes_update [of "ImportPath pkg" "lookup h (ImportPath pkg)" h]
      lookup_subset_nodes [of h "ImportPath pkg"]
    show "?Q (AList.update (ImportPath pkg) (lookup h (ImportPath pkg)) h)" by blast
  next
    fix h q pkg name
    assume h: "?Q h" and i: "Import E q cwd ImportAll = (pkg, None)"
      and nm: "name \<in> set (imports_of F pkg (ImportPath pkg \<in> set roots))"
    from closed [OF i] have p: "ImportPath pkg \<in> U" by simp
    from closed [OF i] nm have "name \<in> U" by (auto simp: set_imports_of split: if_splits)
    with h p nodes_update [of name "lookup h name @ [ImportPath pkg]" h]
      lookup_subset_nodes [of h name]
    show "?Q (AList.update name (lookup h name @ [ImportPath pkg]) h)" by auto
  qed
qed

lemma nodes_filter_subset: "set (nodes (filter P g)) \<subseteq> set (nodes g)"
  by (induction g) (auto simp: nodes_def keys_def)

lemma prune_returns:
  assumes perm: "\<And>ks. set (range_order E ks) = set ks"
    and fin: "finite U" and sub: "set (nodes g) \<subseteq> U" and n: "card U \<le> n"
  shows "\<exists>g'. prune E F n whyMatch rootPkgs g = Some g'"
proof (cases "flag_files F")
  case True
  then show ?thesis by (simp add: prune_def)
next
  case False
  show ?thesis
  proof (cases whyMatch)
    case None
    with False show ?thesis by (simp add: prune_def)
  next
    case (Some wm)
    let ?g = "delete_roots E rootPkgs g"
    have "set (nodes ?g) \<subseteq> U"
      using nodes_filter_subset [of _ g] sub by (auto simp: delete_roots_filter)
    then have "card (set (nodes ?g)) \<le> card U" by (intro card_mono fin)
    with n have "card (set (nodes ?g)) \<le> n" by simp
    from mark_range_closure [OF perm this, of wm] Some False show ?thesis
      by (auto simp: prune_def Let_def)
  qed
qed

lemma main_returns:
  assumes perm: "\<And>ks. set (range_order E ks) = set ks"
    and fin: "finite U"
    and closed: "\<And>cwd q pkg. Import E q cwd ImportAll = (pkg, None) \<Longrightarrow> ImportPath pkg \<in> U \<and>
        set (Imports pkg) \<union> set (TestImports pkg) \<union> set (XTestImports pkg) \<subseteq> U"
    and n: "card U < n"
  shows "\<exists>r. main E F0 args n = Some r"
proof (cases "Getwd E")
  case (Inl e)
  then show ?thesis by (simp add: main_def)
next
  case (Inr cwd)
  have sub: "\<And>ks. set (range_order E ks) \<subseteq> set ks" using perm by simp
  let ?pkgs = "ImportPaths E (if args = [] then [''.''] else args)"
  show ?thesis
  proof (cases "why_flags F0")
    case None
    with Inr show ?thesis by (simp add: main_def)
  next
    case (Some fw)
    obtain F wm where fw: "fw = (F, wm)" by (cases fw)
    show ?thesis
    proof (cases "rootPkgs_range E cwd ?pkgs []")
      case (Inl f)
      with Inr Some fw show ?thesis by (simp add: main_def)
    next
      case roots: (Inr rootPkgs)
      have c: "\<And>q pkg. Import E q cwd ImportAll = (pkg, None) \<Longrightarrow>
          set (Imports pkg) \<union> set (TestImports pkg) \<union> set (XTestImports pkg) \<subseteq> U"
        using closed by blast
      have "\<exists>r. allPkgs_range E cwd F n ?pkgs [] rootPkgs = Some r"
        by (rule allPkgs_range_returns [where U = U, OF sub fin c n])
      then obtain r where r: "allPkgs_range E cwd F n ?pkgs [] rootPkgs = Some r" ..
      show ?thesis
      proof (cases r)
        case (Inl f)
        with Inr Some fw roots r show ?thesis by (simp add: main_def)
      next
        case g: (Inr g)
        have c': "\<And>q pkg. Import E q cwd ImportAll = (pkg, None) \<Longrightarrow> ImportPath pkg \<in> U \<and>
            set (Imports pkg) \<union> set (TestImports pkg) \<union> set (XTestImports pkg) \<subseteq> U"
          using closed by blast
        have "set (nodes g) \<subseteq> U"
          by (rule allPkgs_range_nodes [where U = U, OF sub c' r [unfolded g]])
        from prune_returns [OF perm fin this, of n F wm rootPkgs] n
        obtain g' where "prune E F n wm rootPkgs g = Some g'" by auto
        with Inr Some fw roots r g show ?thesis by (simp add: main_def)
      qed
    qed
  qed
qed

section \<open>A failed resolution is fatal\<close>

lemma followed_resolves:
  "followed E cwd F roots h x \<Longrightarrow> x = ''C'' \<or> snd (Import E x cwd ImportAll) = None"
  by (auto simp: followed_def)

lemma main_unfold:
  "Getwd E = Inr cwd \<Longrightarrow> why_flags F0 = Some (F, wm) \<Longrightarrow>
   main E F0 args n =
     (case rootPkgs_range E cwd (ImportPaths E (if args = [] then [''.''] else args)) [] of
        Inl f \<Rightarrow> Some (Inl f)
      | Inr rootPkgs \<Rightarrow>
          (case allPkgs_range E cwd F n (ImportPaths E (if args = [] then [''.''] else args)) []
                  rootPkgs of
             None \<Rightarrow> None
           | Some (Inl f) \<Rightarrow> Some (Inl f)
           | Some (Inr allPkgs) \<Rightarrow>
               (case prune E F n wm rootPkgs allPkgs of
                  None \<Rightarrow> None
                | Some allPkgs' \<Rightarrow> Some (Inr (render E cwd F rootPkgs allPkgs')))))"
  by (simp add: main_def Let_def)

lemma main_resolution:
  assumes "\<And>ks. set (range_order E ks) = set ks"
    and "Getwd E = Inr cwd"
    and "why_flags F0 = Some (F, wm)"
    and "pkgs = ImportPaths E (if args = [] then [''.''] else args)"
  shows "((\<exists>p \<in> set pkgs. snd (Import E p cwd FindOnly) \<noteq> None) \<longrightarrow>
            (\<exists>xs p ys err. pkgs = xs @ p # ys \<and>
               (\<forall>x \<in> set xs. snd (Import E x cwd FindOnly) = None) \<and>
               snd (Import E p cwd FindOnly) = Some err \<and>
               main E F0 args n = Some (Inl (FatalCannotFind p (BuildError err))))) \<and>
         (\<forall>f. main E F0 args n = Some (Inl f) \<longrightarrow>
            (\<exists>p err. p \<in> set pkgs \<and> snd (Import E p cwd FindOnly) = Some err \<and>
               f = FatalCannotFind p (BuildError err)) \<or>
            (\<exists>root p err. root \<in> set pkgs \<and> p \<noteq> ''C'' \<and>
               snd (Import E p cwd ImportAll) = Some err \<and>
               f = FatalCannotFindImports root (CannotFind p (BuildError err)))) \<and>
         (\<forall>out. main E F0 args n = Some (Inr out) \<longrightarrow>
            (\<exists>rootPkgs. rootPkgs_range E cwd pkgs [] = Inr rootPkgs \<and>
               (\<forall>q \<in> set pkgs. snd (Import E q cwd FindOnly) = None \<and>
                  (\<forall>y. y = q \<or> flag_all F \<and> (q, y) \<in> (deps E cwd F rootPkgs)\<^sup>* \<longrightarrow>
                     y = ''C'' \<or> snd (Import E y cwd ImportAll) = None)))) \<and>
         (\<forall>U. finite U \<and> card U < n \<and>
              (\<forall>d q pkg. Import E q d ImportAll = (pkg, None) \<longrightarrow> ImportPath pkg \<in> U \<and>
                 set (Imports pkg) \<union> set (TestImports pkg) \<union> set (XTestImports pkg) \<subseteq> U) \<longrightarrow>
              main E F0 args n \<noteq> None)"
proof -
  have mu: "main E F0 args n =
     (case rootPkgs_range E cwd pkgs [] of
        Inl f \<Rightarrow> Some (Inl f)
      | Inr rootPkgs \<Rightarrow>
          (case allPkgs_range E cwd F n pkgs [] rootPkgs of
             None \<Rightarrow> None
           | Some (Inl f) \<Rightarrow> Some (Inl f)
           | Some (Inr allPkgs) \<Rightarrow>
               (case prune E F n wm rootPkgs allPkgs of
                  None \<Rightarrow> None
                | Some allPkgs' \<Rightarrow> Some (Inr (render E cwd F rootPkgs allPkgs')))))"
    unfolding assms(4) by (rule main_unfold [OF assms(2,3)])
  show ?thesis
proof (intro conjI allI impI)
  assume "\<exists>p \<in> set pkgs. snd (Import E p cwd FindOnly) \<noteq> None"
  then obtain f where f: "rootPkgs_range E cwd pkgs [] = Inl f"
    using rootPkgs_range_Inr [of E cwd pkgs "[]"] by (cases "rootPkgs_range E cwd pkgs []") auto
  from rootPkgs_range_Inl [OF f] obtain xs p ys err where
    x: "pkgs = xs @ p # ys \<and> (\<forall>x \<in> set xs. snd (Import E x cwd FindOnly) = None) \<and>
      snd (Import E p cwd FindOnly) = Some err \<and> f = FatalCannotFind p (BuildError err)"
    by (elim exE)
  from f x have "main E F0 args n = Some (Inl (FatalCannotFind p (BuildError err)))"
    by (simp add: mu)
  with x have "pkgs = xs @ p # ys \<and>
               (\<forall>x \<in> set xs. snd (Import E x cwd FindOnly) = None) \<and>
               snd (Import E p cwd FindOnly) = Some err \<and>
               main E F0 args n = Some (Inl (FatalCannotFind p (BuildError err)))"
    by simp
  then show "\<exists>xs p ys err. pkgs = xs @ p # ys \<and>
               (\<forall>x \<in> set xs. snd (Import E x cwd FindOnly) = None) \<and>
               snd (Import E p cwd FindOnly) = Some err \<and>
               main E F0 args n = Some (Inl (FatalCannotFind p (BuildError err)))"
    by (intro exI)
next
  fix f assume m: "main E F0 args n = Some (Inl f)"
  show "(\<exists>p err. p \<in> set pkgs \<and> snd (Import E p cwd FindOnly) = Some err \<and>
               f = FatalCannotFind p (BuildError err)) \<or>
            (\<exists>root p err. root \<in> set pkgs \<and> p \<noteq> ''C'' \<and>
               snd (Import E p cwd ImportAll) = Some err \<and>
               f = FatalCannotFindImports root (CannotFind p (BuildError err)))"
  proof (cases "rootPkgs_range E cwd pkgs []")
    case (Inl f')
    with m have ff: "f' = f" by (simp add: mu)
    from rootPkgs_range_Inl [OF Inl] obtain xs p ys err where
      x: "pkgs = xs @ p # ys \<and> (\<forall>x \<in> set xs. snd (Import E x cwd FindOnly) = None) \<and>
        snd (Import E p cwd FindOnly) = Some err \<and> f' = FatalCannotFind p (BuildError err)"
      by (elim exE)
    with ff have "p \<in> set pkgs \<and> snd (Import E p cwd FindOnly) = Some err \<and>
               f = FatalCannotFind p (BuildError err)" by simp
    then have "\<exists>p err. p \<in> set pkgs \<and> snd (Import E p cwd FindOnly) = Some err \<and>
               f = FatalCannotFind p (BuildError err)" by (intro exI)
    then show ?thesis ..
  next
    case (Inr rootPkgs)
    with m have "allPkgs_range E cwd F n pkgs [] rootPkgs = Some (Inl f)"
      by (simp add: mu split: option.splits sum.splits)
    from allPkgs_range_error [OF this] obtain root name err where
      e: "f = FatalCannotFindImports root (CannotFind name (BuildError err)) \<and>
        root \<in> set pkgs \<and> name \<noteq> ''C'' \<and> snd (Import E name cwd ImportAll) = Some err"
      by (elim exE)
    then have "root \<in> set pkgs \<and> name \<noteq> ''C'' \<and>
        snd (Import E name cwd ImportAll) = Some err \<and>
        f = FatalCannotFindImports root (CannotFind name (BuildError err))" by simp
    then have "\<exists>root p err. root \<in> set pkgs \<and> p \<noteq> ''C'' \<and>
        snd (Import E p cwd ImportAll) = Some err \<and>
        f = FatalCannotFindImports root (CannotFind p (BuildError err))" by (intro exI)
    then show ?thesis ..
  qed
next
  fix out assume m: "main E F0 args n = Some (Inr out)"
  obtain rootPkgs where r: "rootPkgs_range E cwd pkgs [] = Inr rootPkgs"
    using m by (cases "rootPkgs_range E cwd pkgs []") (simp_all add: mu)
  obtain g where b: "allPkgs_range E cwd F n pkgs [] rootPkgs = Some (Inr g)"
    using m r
    by (cases "allPkgs_range E cwd F n pkgs [] rootPkgs")
      (simp_all add: mu split: sum.splits)
  have "snd (Import E q cwd FindOnly) = None \<and>
        (\<forall>y. y = q \<or> flag_all F \<and> (q, y) \<in> (deps E cwd F rootPkgs)\<^sup>* \<longrightarrow>
           y = ''C'' \<or> snd (Import E y cwd ImportAll) = None)" if q: "q \<in> set pkgs" for q
  proof (intro conjI allI impI)
    from rootPkgs_range_Inr [OF r] q show "snd (Import E q cwd FindOnly) = None" by simp
  next
    fix y assume "y = q \<or> flag_all F \<and> (q, y) \<in> (deps E cwd F rootPkgs)\<^sup>*"
    then have "followed E cwd F rootPkgs g y"
    proof
      assume "y = q"
      with allPkgs_range_followed [OF assms(1) b] q show ?thesis by simp
    next
      assume a: "flag_all F \<and> (q, y) \<in> (deps E cwd F rootPkgs)\<^sup>*"
      show ?thesis
        by (rule reachable_followed [OF assms(1) b conjunct1 [OF a] q conjunct2 [OF a]])
    qed
    then show "y = ''C'' \<or> snd (Import E y cwd ImportAll) = None" by (rule followed_resolves)
  qed
  then have "rootPkgs_range E cwd pkgs [] = Inr rootPkgs \<and>
               (\<forall>q \<in> set pkgs. snd (Import E q cwd FindOnly) = None \<and>
                  (\<forall>y. y = q \<or> flag_all F \<and> (q, y) \<in> (deps E cwd F rootPkgs)\<^sup>* \<longrightarrow>
                     y = ''C'' \<or> snd (Import E y cwd ImportAll) = None))"
    using r by simp
  then show "\<exists>rootPkgs. rootPkgs_range E cwd pkgs [] = Inr rootPkgs \<and>
               (\<forall>q \<in> set pkgs. snd (Import E q cwd FindOnly) = None \<and>
                  (\<forall>y. y = q \<or> flag_all F \<and> (q, y) \<in> (deps E cwd F rootPkgs)\<^sup>* \<longrightarrow>
                     y = ''C'' \<or> snd (Import E y cwd ImportAll) = None))"
    by (rule exI)
next
  fix U
  assume u: "finite U \<and> card U < n \<and>
              (\<forall>d q pkg. Import E q d ImportAll = (pkg, None) \<longrightarrow> ImportPath pkg \<in> U \<and>
                 set (Imports pkg) \<union> set (TestImports pkg) \<union> set (XTestImports pkg) \<subseteq> U)"
  then have fin: "finite U" and n: "card U < n" by simp_all
  have closed: "ImportPath pkg \<in> U \<and>
      set (Imports pkg) \<union> set (TestImports pkg) \<union> set (XTestImports pkg) \<subseteq> U"
    if "Import E q d ImportAll = (pkg, None)" for d q pkg
  proof -
    from u have "\<forall>d q pkg. Import E q d ImportAll = (pkg, None) \<longrightarrow> ImportPath pkg \<in> U \<and>
        set (Imports pkg) \<union> set (TestImports pkg) \<union> set (XTestImports pkg) \<subseteq> U" by simp
    from this [THEN spec, THEN spec, THEN spec, THEN mp, OF that] show ?thesis .
  qed
  have "\<exists>r. main E F0 args n = Some r"
    by (rule main_returns [where U = U, OF assms(1) fin closed n])
  then show "main E F0 args n \<noteq> None" by (elim exE) simp
qed
qed

text \<open>
  C8. A failed resolution ends the query with an error that names the path, and nothing is
  printed: the result of \<^verbatim>\<open>main\<close> is either a fatal error or the lines of the output, never
  both. In five parts:
  \<^item> if \<^verbatim>\<open>Import\<close> with \<^verbatim>\<open>FindOnly\<close> fails on one of the packages named on the command line,
    \<^verbatim>\<open>main\<close> exits, for any depth budget, with \<open>FatalCannotFind\<close> on the first such package;
  \<^item> a fatal result carries a path whose resolution did fail, a root in the first loop or
    the path \<^verbatim>\<open>findImports\<close> was resolving;
  \<^item> when \<^verbatim>\<open>main\<close> prints, every root resolved, and with \<^verbatim>\<open>-a\<close> so did every path the
    traversal follows from a root, the path \<open>C\<close> apart, which is never resolved;
  \<^item> for a finite set of modules and a depth budget above its size, \<^verbatim>\<open>main\<close> returns;
  \<^item> so, for such a set, if a root or with \<^verbatim>\<open>-a\<close> a path followed from a root fails to
    resolve, \<^verbatim>\<open>main\<close> exits with a fatal error.
\<close>

theorem resolution_failure_is_fatal:
  assumes "\<And>ks. set (range_order E ks) = set ks"
    and "Getwd E = Inr cwd"
    and "why_flags F0 = Some (F, wm)"
    and "pkgs = ImportPaths E (if args = [] then [''.''] else args)"
  shows "((\<exists>p \<in> set pkgs. snd (Import E p cwd FindOnly) \<noteq> None) \<longrightarrow>
            (\<exists>xs p ys err. pkgs = xs @ p # ys \<and>
               (\<forall>x \<in> set xs. snd (Import E x cwd FindOnly) = None) \<and>
               snd (Import E p cwd FindOnly) = Some err \<and>
               main E F0 args n = Some (Inl (FatalCannotFind p (BuildError err))))) \<and>
         (\<forall>f. main E F0 args n = Some (Inl f) \<longrightarrow>
            (\<exists>p err. p \<in> set pkgs \<and> snd (Import E p cwd FindOnly) = Some err \<and>
               f = FatalCannotFind p (BuildError err)) \<or>
            (\<exists>root p err. root \<in> set pkgs \<and> p \<noteq> ''C'' \<and>
               snd (Import E p cwd ImportAll) = Some err \<and>
               f = FatalCannotFindImports root (CannotFind p (BuildError err)))) \<and>
         (\<forall>out. main E F0 args n = Some (Inr out) \<longrightarrow>
            (\<exists>rootPkgs. rootPkgs_range E cwd pkgs [] = Inr rootPkgs \<and>
               (\<forall>q \<in> set pkgs. snd (Import E q cwd FindOnly) = None \<and>
                  (\<forall>y. y = q \<or> flag_all F \<and> (q, y) \<in> (deps E cwd F rootPkgs)\<^sup>* \<longrightarrow>
                     y = ''C'' \<or> snd (Import E y cwd ImportAll) = None)))) \<and>
         (\<forall>U. finite U \<and> card U < n \<and>
              (\<forall>d q pkg. Import E q d ImportAll = (pkg, None) \<longrightarrow> ImportPath pkg \<in> U \<and>
                 set (Imports pkg) \<union> set (TestImports pkg) \<union> set (XTestImports pkg) \<subseteq> U) \<longrightarrow>
              main E F0 args n \<noteq> None) \<and>
         (\<forall>U rootPkgs q y. finite U \<and> card U < n \<and>
              (\<forall>d q pkg. Import E q d ImportAll = (pkg, None) \<longrightarrow> ImportPath pkg \<in> U \<and>
                 set (Imports pkg) \<union> set (TestImports pkg) \<union> set (XTestImports pkg) \<subseteq> U) \<and>
              rootPkgs_range E cwd pkgs [] = Inr rootPkgs \<and> q \<in> set pkgs \<and>
              (y = q \<or> flag_all F \<and> (q, y) \<in> (deps E cwd F rootPkgs)\<^sup>*) \<and>
              y \<noteq> ''C'' \<and> snd (Import E y cwd ImportAll) \<noteq> None \<longrightarrow>
              (\<exists>f. main E F0 args n = Some (Inl f)))"
proof -
  note parts = main_resolution [OF assms, of n]
  note p3 = parts [THEN conjunct2, THEN conjunct2, THEN conjunct1]
  note p4 = parts [THEN conjunct2, THEN conjunct2, THEN conjunct2]
  have p5: "\<exists>f. main E F0 args n = Some (Inl f)"
    if h: "finite U \<and> card U < n \<and>
              (\<forall>d q pkg. Import E q d ImportAll = (pkg, None) \<longrightarrow> ImportPath pkg \<in> U \<and>
                 set (Imports pkg) \<union> set (TestImports pkg) \<union> set (XTestImports pkg) \<subseteq> U) \<and>
              rootPkgs_range E cwd pkgs [] = Inr rootPkgs \<and> q \<in> set pkgs \<and>
              (y = q \<or> flag_all F \<and> (q, y) \<in> (deps E cwd F rootPkgs)\<^sup>*) \<and>
              y \<noteq> ''C'' \<and> snd (Import E y cwd ImportAll) \<noteq> None"
    for U rootPkgs q y
  proof -
    from h have hu: "finite U \<and> card U < n \<and>
              (\<forall>d q pkg. Import E q d ImportAll = (pkg, None) \<longrightarrow> ImportPath pkg \<in> U \<and>
                 set (Imports pkg) \<union> set (TestImports pkg) \<union> set (XTestImports pkg) \<subseteq> U)"
      by simp
    from h have r: "rootPkgs_range E cwd pkgs [] = Inr rootPkgs" and q: "q \<in> set pkgs"
      and reach: "y = q \<or> flag_all F \<and> (q, y) \<in> (deps E cwd F rootPkgs)\<^sup>*"
      and bad: "y \<noteq> ''C''" "snd (Import E y cwd ImportAll) \<noteq> None"
      by simp_all
    from p4 [THEN spec, THEN mp, OF hu] obtain res where res: "main E F0 args n = Some res"
      by (cases "main E F0 args n") simp_all
    show ?thesis
    proof (cases res)
      case (Inl f)
      with res show ?thesis by simp
    next
      case (Inr out)
      with res have "main E F0 args n = Some (Inr out)" by simp
      from p3 [THEN spec, THEN mp, OF this] obtain rootPkgs' where
        r': "rootPkgs_range E cwd pkgs [] = Inr rootPkgs'"
        and a: "\<forall>q \<in> set pkgs. snd (Import E q cwd FindOnly) = None \<and>
                  (\<forall>y. y = q \<or> flag_all F \<and> (q, y) \<in> (deps E cwd F rootPkgs')\<^sup>* \<longrightarrow>
                     y = ''C'' \<or> snd (Import E y cwd ImportAll) = None)"
        by (elim exE conjE)
      from r r' have "rootPkgs' = rootPkgs" by simp
      with a q have "\<forall>y. y = q \<or> flag_all F \<and> (q, y) \<in> (deps E cwd F rootPkgs)\<^sup>* \<longrightarrow>
                     y = ''C'' \<or> snd (Import E y cwd ImportAll) = None" by simp
      from this [THEN spec, THEN mp, OF reach] bad show ?thesis by simp
    qed
  qed
  note p1 = parts [THEN conjunct1]
  note p2 = parts [THEN conjunct2, THEN conjunct1]
  from p5 have p5': "\<forall>U rootPkgs q y. finite U \<and> card U < n \<and>
              (\<forall>d q pkg. Import E q d ImportAll = (pkg, None) \<longrightarrow> ImportPath pkg \<in> U \<and>
                 set (Imports pkg) \<union> set (TestImports pkg) \<union> set (XTestImports pkg) \<subseteq> U) \<and>
              rootPkgs_range E cwd pkgs [] = Inr rootPkgs \<and> q \<in> set pkgs \<and>
              (y = q \<or> flag_all F \<and> (q, y) \<in> (deps E cwd F rootPkgs)\<^sup>*) \<and>
              y \<noteq> ''C'' \<and> snd (Import E y cwd ImportAll) \<noteq> None \<longrightarrow>
              (\<exists>f. main E F0 args n = Some (Inl f))"
    by (intro allI impI)
  from p1 p2 p3 p4 p5' show ?thesis by (intro conjI)
qed

theorem resolution_failure_is_fatal_witness:
  "main env0 (flags0\<lparr>flag_all := True\<rparr>) [''x.io/bad''] 10
     = Some (Inl (FatalCannotFindImports ''x.io/bad''
          (CannotFind ''x.io/missing'' (BuildError ''not found''))))
   \<and> snd (Import env0 ''x.io/missing'' ''/w'' ImportAll) = Some ''not found''
   \<and> main env0 (flags0\<lparr>flag_all := True\<rparr>) [''x.io/r1'', ''x.io/missing''] 10
     = Some (Inl (FatalCannotFind ''x.io/missing'' (BuildError ''not found'')))"
proof -
  let ?F = "flags0\<lparr>flag_all := True\<rparr>"
  have h1: "\<And>ks. set (range_order env0 ks) = set ks" by (simp add: env0_def)
  have h2: "Getwd env0 = Inr ''/w''" by (simp add: env0_def)
  have h3: "why_flags ?F = Some (?F, None)" by (simp add: why_flags_def flags0_def)
  have h4: "[''x.io/bad''] = ImportPaths env0 (if [''x.io/bad''] = [] then [''.''] else [''x.io/bad''])"
    by (simp add: env0_def)
  have h5: "[''x.io/r1'', ''x.io/missing''] = ImportPaths env0
      (if [''x.io/r1'', ''x.io/missing''] = [] then [''.''] else [''x.io/r1'', ''x.io/missing''])"
    by (simp add: env0_def)
  have ev: "main env0 ?F [''x.io/bad''] 10
     = Some (Inl (FatalCannotFindImports ''x.io/bad''
          (CannotFind ''x.io/missing'' (BuildError ''not found''))))"
    by (simp add: run0 main_def why_flags_def)
  note t = resolution_failure_is_fatal [OF h1 h2 h3 h4, of 10]
  from t [THEN conjunct2, THEN conjunct1, THEN spec, THEN mp, OF ev]
  have "(\<exists>p err. p \<in> set [''x.io/bad''] \<and> snd (Import env0 p ''/w'' FindOnly) = Some err \<and>
           FatalCannotFindImports ''x.io/bad'' (CannotFind ''x.io/missing'' (BuildError ''not found''))
             = FatalCannotFind p (BuildError err)) \<or>
        (\<exists>root p err. root \<in> set [''x.io/bad''] \<and> p \<noteq> ''C'' \<and>
           snd (Import env0 p ''/w'' ImportAll) = Some err \<and>
           FatalCannotFindImports ''x.io/bad'' (CannotFind ''x.io/missing'' (BuildError ''not found''))
             = FatalCannotFindImports root (CannotFind p (BuildError err)))" .
  then have i': "snd (Import env0 ''x.io/missing'' ''/w'' ImportAll) = Some ''not found''"
    by simp
  have ev2: "main env0 ?F [''x.io/r1'', ''x.io/missing''] 10
     = Some (Inl (FatalCannotFind ''x.io/missing'' (BuildError ''not found'')))"
    by (simp add: run0 main_def why_flags_def)
  from ev i' ev2 show ?thesis by simp
qed

section \<open>Files mode and failed resolutions\<close>




lemma showFiles_Nil_iff: "showFiles pkg fs = [] \<longleftrightarrow> fs = []"
  by (cases fs) simp_all




section \<open>matchPattern and glob patterns\<close>

lemma backslash_special [simp]: "backslash \<in> set specialBytes"
  and dot_special [simp]: "CHR ''.'' \<in> set specialBytes"
  and star_special [simp]: "CHR ''*'' \<in> set specialBytes"
  and paren_special [simp]: "CHR ''('' \<in> set specialBytes"
  and slash_not_special [simp]: "CHR ''/'' \<notin> set specialBytes"
  and backslash_not_dot [simp]: "backslash \<noteq> CHR ''.''" "CHR ''.'' \<noteq> backslash"
  by (simp_all add: specialBytes_def backslash_def)

lemma QuoteMeta_Nil [simp]: "QuoteMeta [] = []"
  by (simp add: QuoteMeta_def)

lemma QuoteMeta_Cons [simp]:
  "QuoteMeta (c # s) = re_of_token (GChar c) @ QuoteMeta s"
  by (simp add: QuoteMeta_def)

lemma QuoteMeta_hd: "QuoteMeta s = x # r \<Longrightarrow> x \<noteq> CHR ''.''"
  by (cases s) (auto split: if_splits)


lemma length_dots3 [simp]: "length dots3 = 6" and dots3_not_Nil [simp]: "dots3 \<noteq> []"
  by (simp_all add: dots3_def)

lemma take_QuoteMeta_step:
  "take (Suc (Suc n)) (QuoteMeta s) = backslash # CHR ''.'' # r \<longleftrightarrow>
     (\<exists>s'. s = CHR ''.'' # s' \<and> take n (QuoteMeta s') = r)"
proof (cases s)
  case Nil
  then show ?thesis by simp
next
  case (Cons a s')
  show ?thesis
  proof (cases "a \<in> set specialBytes")
    case True
    with Cons show ?thesis by auto
  next
    case False
    then have "a \<noteq> backslash" by auto
    with Cons False show ?thesis by auto
  qed
qed

lemma take6_QuoteMeta:
  "take 6 (QuoteMeta s) = dots3 \<longleftrightarrow> (\<exists>s'. s = ''...'' @ s')"
proof -
  have "take 6 (QuoteMeta s) = dots3 \<longleftrightarrow>
      take (Suc (Suc (Suc (Suc (Suc (Suc 0)))))) (QuoteMeta s)
        = backslash # CHR ''.'' # backslash # CHR ''.'' # backslash # CHR ''.'' # []"
  proof -
    have "(6::nat) = Suc (Suc (Suc (Suc (Suc (Suc 0)))))" by simp
    then show ?thesis by (simp only: dots3_def)
  qed
  also have "\<dots> \<longleftrightarrow> (\<exists>s1. s = CHR ''.'' # s1 \<and> (\<exists>s2. s1 = CHR ''.'' # s2 \<and>
      (\<exists>s3. s2 = CHR ''.'' # s3 \<and> take 0 (QuoteMeta s3) = [])))"
    by (simp only: take_QuoteMeta_step)
  also have "\<dots> \<longleftrightarrow> (\<exists>s'. s = ''...'' @ s')" by auto
  finally show ?thesis .
qed

lemma Replace_match:
  assumes "take 6 X = dots3"
  shows "Replace X dots3 new = new @ Replace (drop 6 X) dots3 new"
proof (cases X)
  case Nil
  with assms show ?thesis by (simp add: dots3_def)
next
  case (Cons c s)
  from assms have "take (length dots3) (c # s) = dots3" by (simp only: Cons length_dots3)
  then show ?thesis
    by (simp only: Cons Replace.simps dots3_not_Nil if_False if_True length_dots3 simp_thms)
qed

lemma Replace_skip:
  "take 6 (c # X) \<noteq> dots3 \<Longrightarrow> Replace (c # X) dots3 new = c # Replace X dots3 new"
  by simp

lemma Replace_QuoteMeta_char:
  assumes "\<not> (\<exists>s'. a # rest = ''...'' @ s')"
  shows "Replace (QuoteMeta (a # rest)) dots3 new
           = re_of_token (GChar a) @ Replace (QuoteMeta rest) dots3 new"
proof -
  from assms have n: "take 6 (QuoteMeta (a # rest)) \<noteq> dots3"
    by (simp only: take6_QuoteMeta) simp
  show ?thesis
  proof (cases "a \<in> set specialBytes")
    case False
    with n show ?thesis by simp
  next
    case True
    have "take 6 (a # QuoteMeta rest) \<noteq> dots3"
    proof
      assume e: "take 6 (a # QuoteMeta rest) = dots3"
      then obtain x r where "QuoteMeta rest = x # r" "x = CHR ''.''"
        by (cases "QuoteMeta rest") (auto simp: dots3_def eval_nat_numeral)
      with QuoteMeta_hd [of rest x r] show False by simp
    qed
    with n True show ?thesis by simp
  qed
qed

lemma glob_tokens_induct [case_names three one two nil]:
  assumes "\<And>a b c s.
      (a = CHR ''.'' \<and> b = CHR ''.'' \<and> c = CHR ''.'' \<Longrightarrow> P s) \<Longrightarrow>
      (\<not> (a = CHR ''.'' \<and> b = CHR ''.'' \<and> c = CHR ''.'') \<Longrightarrow> P (b # c # s)) \<Longrightarrow>
      P (a # b # c # s)"
    and "\<And>a. P [] \<Longrightarrow> P [a]"
    and "\<And>a v. P [v] \<Longrightarrow> P [a, v]"
    and "P []"
  shows "P p"
  using assms by (rule glob_tokens.induct)

lemma Replace_QuoteMeta:
  "Replace (QuoteMeta p) dots3 ''.*'' = concat (map re_of_token (glob_tokens p))"
proof (induction p rule: glob_tokens_induct)
  case (three a b c s)
  show ?case
  proof (cases "a = CHR ''.'' \<and> b = CHR ''.'' \<and> c = CHR ''.''")
    case True
    then have q: "QuoteMeta (a # b # c # s) = dots3 @ QuoteMeta s"
      by (simp add: dots3_def)
    have "take 6 (QuoteMeta (a # b # c # s)) = dots3" by (simp only: q) simp
    from Replace_match [OF this] q True three.IH(1) show ?thesis by simp
  next
    case False
    then have "\<not> (\<exists>s'. a # b # c # s = ''...'' @ s')" by auto
    from Replace_QuoteMeta_char [OF this] False three.IH(2) show ?thesis by simp
  qed
next
  case (one a)
  have "\<not> (\<exists>s'. [a] = ''...'' @ s')" by simp
  from Replace_QuoteMeta_char [OF this] show ?case by simp
next
  case (two a v)
  have "\<not> (\<exists>s'. [a, v] = ''...'' @ s')" by simp
  from Replace_QuoteMeta_char [OF this] two.IH show ?case by simp
next
  case nil
  show ?case by simp
qed


lemma HasSuffix_iff: "HasSuffix s suf \<longleftrightarrow> (\<exists>q. s = q @ suf)"
proof
  assume "HasSuffix s suf"
  then have "s = take (length s - length suf) s @ suf"
    by (metis HasSuffix_def append_take_drop_id)
  then show "\<exists>q. s = q @ suf" ..
next
  assume "\<exists>q. s = q @ suf"
  then show "HasSuffix s suf" by (auto simp: HasSuffix_def)
qed

lemma glob_tokens_non_dot:
  "c \<noteq> CHR ''.'' \<Longrightarrow> glob_tokens (c # r) = GChar c # glob_tokens r"
proof (cases r)
  case Nil
  then show ?thesis by simp
next
  case (Cons x r1)
  assume c: "c \<noteq> CHR ''.''"
  show ?thesis
  proof (cases r1)
    case Nil
    with Cons show ?thesis by simp
  next
    case (Cons y r2)
    with \<open>r = x # r1\<close> c show ?thesis by simp
  qed
qed

lemma glob_tokens_before_slash:
  "glob_tokens (a # CHR ''/'' # r) = GChar a # GChar CHR ''/'' # glob_tokens r"
proof (cases r)
  case Nil
  then show ?thesis by simp
next
  case (Cons x r1)
  then show ?thesis by (simp add: glob_tokens_non_dot)
qed

lemma glob_tokens_slash:
  "glob_tokens (q @ CHR ''/'' # r) = glob_tokens q @ GChar CHR ''/'' # glob_tokens r"
proof (induction q rule: glob_tokens_induct)
  case (three a b c s)
  then show ?case by simp
next
  case (one a)
  show ?case by (simp add: glob_tokens_before_slash)
next
  case (two a v)
  show ?case by (simp add: glob_tokens_before_slash)
next
  case nil
  show ?case by (simp add: glob_tokens_non_dot)
qed

lemma glob_tokens_dots3 [simp]: "glob_tokens ''...'' = [GWild]"
  by simp

lemma untok_glob_tokens: "concat (map untok (glob_tokens p)) = p"
  by (induction p rule: glob_tokens.induct) auto

lemma glob_tokens_suffix:
  "HasSuffix p ''/...'' \<longleftrightarrow> (\<exists>ts. glob_tokens p = ts @ [GChar CHR ''/'', GWild])"
proof
  assume "HasSuffix p ''/...''"
  then obtain q where "p = q @ CHR ''/'' # ''...''" by (auto simp: HasSuffix_iff)
  then have "glob_tokens p = glob_tokens q @ [GChar CHR ''/'', GWild]"
    by (simp only: glob_tokens_slash glob_tokens_dots3)
  then show "\<exists>ts. glob_tokens p = ts @ [GChar CHR ''/'', GWild]" ..
next
  assume "\<exists>ts. glob_tokens p = ts @ [GChar CHR ''/'', GWild]"
  then obtain ts where t: "glob_tokens p = ts @ [GChar CHR ''/'', GWild]" ..
  have "p = concat (map untok (glob_tokens p))" by (simp only: untok_glob_tokens)
  also have "\<dots> = concat (map untok ts) @ ''/...''" by (simp add: t)
  finally show "HasSuffix p ''/...''" by (auto simp: HasSuffix_iff)
qed

lemma glob_tokens_strip:
  assumes "HasSuffix p ''/...''"
  shows "glob_tokens p = glob_tokens (take (length p - 4) p) @ [GChar CHR ''/'', GWild]"
proof -
  from assms obtain q where p: "p = q @ CHR ''/'' # ''...''" by (auto simp: HasSuffix_iff)
  then have "take (length p - 4) p = q" by simp
  moreover from p have "glob_tokens p = glob_tokens q @ [GChar CHR ''/'', GWild]"
    by (simp only: glob_tokens_slash glob_tokens_dots3)
  ultimately show ?thesis by simp
qed

lemma re_of_token_last:
  "re_of_token t \<noteq> []" "last (re_of_token t) = (case t of GChar c \<Rightarrow> c | GWild \<Rightarrow> CHR ''*'')"
  by (cases t; simp)+

lemma re_suffix:
  "HasSuffix (concat (map re_of_token ts)) ''/.*'' \<longleftrightarrow>
     (\<exists>ts'. ts = ts' @ [GChar CHR ''/'', GWild])"
proof
  assume "\<exists>ts'. ts = ts' @ [GChar CHR ''/'', GWild]"
  then show "HasSuffix (concat (map re_of_token ts)) ''/.*''"
    by (auto simp: HasSuffix_iff)
next
  assume "HasSuffix (concat (map re_of_token ts)) ''/.*''"
  then obtain q where q: "concat (map re_of_token ts) = q @ ''/.*''"
    by (auto simp: HasSuffix_iff)
  show "\<exists>ts'. ts = ts' @ [GChar CHR ''/'', GWild]"
  proof (cases ts rule: rev_cases)
    case Nil
    with q show ?thesis by simp
  next
    case (snoc ts1 t)
    show ?thesis
    proof (cases t)
      case (GChar c)
      with q snoc have "rev (concat (map re_of_token ts1) @ re_of_token (GChar c)) = rev (q @ ''/.*'')"
        by simp
      then have False by (simp split: if_splits)
      then show ?thesis ..
    next
      case GWild
      with q snoc have r1: "concat (map re_of_token ts1) = q @ ''/''" by simp
      show ?thesis
      proof (cases ts1 rule: rev_cases)
        case Nil
        with r1 show ?thesis by simp
      next
        case (snoc ts2 t2)
        show ?thesis
        proof (cases t2)
          case (GChar c)
          with r1 snoc have "rev (concat (map re_of_token ts2) @ re_of_token (GChar c)) = rev (q @ ''/'')"
            by simp
          then have "c = CHR ''/''" by (simp split: if_splits)
          with GChar snoc \<open>ts = ts1 @ [t]\<close> \<open>t = GWild\<close> show ?thesis by simp
        next
          case GWild
          with r1 snoc have "rev (concat (map re_of_token ts2) @ ''.*'') = rev (q @ ''/'')" by simp
          then show ?thesis by simp
        qed
      qed
    qed
  qed
qed


lemma parse_rx_tokens:
  "parse_rx (concat (map re_of_token ts) @ rest)
     = map_option ((@) (map rx_of_token ts)) (parse_rx rest)"
proof (induction ts)
  case Nil
  show ?case by (simp add: option.map_ident)
next
  case (Cons t ts)
  show ?case
  proof (cases t)
    case (GChar c)
    show ?thesis
    proof (cases "c \<in> set specialBytes")
      case True
      with GChar Cons show ?thesis by (simp add: option.map_comp comp_def)
    next
      case False
      then have "c \<noteq> backslash" "c \<noteq> CHR ''.''" "c \<noteq> CHR ''(''" by auto
      with False GChar Cons show ?thesis by (simp add: option.map_comp comp_def)
    qed
  next
    case GWild
    with Cons show ?thesis by (simp add: option.map_comp comp_def backslash_def)
  qed
qed

lemma parse_rx_opt: "parse_rx ''(/.*)?'' = Some [OptSlashDotStar]"
  by (simp add: backslash_def)

lemma MustCompile_anchored: "MustCompile (CHR ''^'' # body @ ''$'') = parse_rx body"
  by (simp add: MustCompile_def)

lemma MustCompile_tokens:
  "MustCompile (CHR ''^'' # concat (map re_of_token ts) @ ''$'') = Some (map rx_of_token ts)"
  using parse_rx_tokens [of ts "[]"] by (simp add: MustCompile_anchored)

lemma MustCompile_tokens_opt:
  "MustCompile (CHR ''^'' # concat (map re_of_token ts) @ ''(/.*)?$'')
     = Some (map rx_of_token ts @ [OptSlashDotStar])"
proof -
  have "CHR ''^'' # concat (map re_of_token ts) @ ''(/.*)?$''
      = CHR ''^'' # (concat (map re_of_token ts) @ ''(/.*)?'') @ ''$''" by simp
  then have "MustCompile (CHR ''^'' # concat (map re_of_token ts) @ ''(/.*)?$'')
      = parse_rx (concat (map re_of_token ts) @ ''(/.*)?'')"
    by (simp only: MustCompile_anchored)
  also have "\<dots> = Some (map rx_of_token ts @ [OptSlashDotStar])"
    by (simp only: parse_rx_tokens parse_rx_opt) simp
  finally show ?thesis .
qed

lemma MatchString_DotStar:
  "MatchString (DotStar # r) s \<longleftrightarrow>
     (\<exists>k \<in> {..length s}. newline \<notin> set (take k s) \<and> MatchString r (drop k s))"
proof (induction s)
  case Nil
  show ?case by simp
next
  case (Cons x xs)
  have "(\<exists>k \<in> {..length (x # xs)}. newline \<notin> set (take k (x # xs)) \<and> MatchString r (drop k (x # xs)))
      \<longleftrightarrow> MatchString r (x # xs) \<or>
          (\<exists>k \<in> {..length xs}. newline \<notin> set (take (Suc k) (x # xs)) \<and>
             MatchString r (drop (Suc k) (x # xs)))"
  proof
    assume "\<exists>k \<in> {..length (x # xs)}. newline \<notin> set (take k (x # xs)) \<and> MatchString r (drop k (x # xs))"
    then obtain k where k: "k \<le> length (x # xs)" "newline \<notin> set (take k (x # xs))"
      "MatchString r (drop k (x # xs))" by auto
    show "MatchString r (x # xs) \<or>
          (\<exists>k \<in> {..length xs}. newline \<notin> set (take (Suc k) (x # xs)) \<and>
             MatchString r (drop (Suc k) (x # xs)))"
    proof (cases k)
      case 0
      with k show ?thesis by simp
    next
      case (Suc j)
      with k have "j \<in> {..length xs}" by simp
      with k Suc show ?thesis by blast
    qed
  next
    assume "MatchString r (x # xs) \<or>
          (\<exists>k \<in> {..length xs}. newline \<notin> set (take (Suc k) (x # xs)) \<and>
             MatchString r (drop (Suc k) (x # xs)))"
    then show "\<exists>k \<in> {..length (x # xs)}. newline \<notin> set (take k (x # xs)) \<and> MatchString r (drop k (x # xs))"
    proof
      assume "MatchString r (x # xs)"
      then have "newline \<notin> set (take 0 (x # xs)) \<and> MatchString r (drop 0 (x # xs))" by simp
      then show ?thesis by (intro bexI [where x = 0]) simp_all
    next
      assume "\<exists>k \<in> {..length xs}. newline \<notin> set (take (Suc k) (x # xs)) \<and>
             MatchString r (drop (Suc k) (x # xs))"
      then obtain k where "k \<le> length xs" "newline \<notin> set (take (Suc k) (x # xs)) \<and>
             MatchString r (drop (Suc k) (x # xs))" by auto
      then show ?thesis by (intro bexI [where x = "Suc k"]) simp_all
    qed
  qed
  with Cons show ?case by auto
qed

lemma MatchString_tokens:
  "MatchString (map rx_of_token ts) s \<longleftrightarrow> glob_match [newline] ts s"
proof (induction ts arbitrary: s)
  case Nil
  show ?case by simp
next
  case (Cons t ts)
  show ?case
  proof (cases t)
    case (GChar c)
    with Cons show ?thesis by (cases s) simp_all
  next
    case GWild
    with Cons show ?thesis by (simp only: list.map rx_of_token.simps MatchString_DotStar) simp
  qed
qed

lemma MatchString_tokens_opt:
  "MatchString (map rx_of_token ts @ [OptSlashDotStar]) s \<longleftrightarrow>
     MatchString (map rx_of_token ts) s \<or>
     MatchString (map rx_of_token (ts @ [GChar CHR ''/'', GWild])) s"
proof (induction ts arbitrary: s)
  case Nil
  show ?case by simp
next
  case (Cons t ts)
  show ?case
  proof (cases t)
    case (GChar c)
    with Cons show ?thesis by (cases s) auto
  next
    case GWild
    have "MatchString (map rx_of_token (t # ts) @ [OptSlashDotStar]) s \<longleftrightarrow>
        (\<exists>k \<in> {..length s}. newline \<notin> set (take k s) \<and>
           MatchString (map rx_of_token ts @ [OptSlashDotStar]) (drop k s))"
      by (simp only: GWild list.map rx_of_token.simps append_Cons MatchString_DotStar)
    also have "\<dots> \<longleftrightarrow>
        (\<exists>k \<in> {..length s}. newline \<notin> set (take k s) \<and>
           (MatchString (map rx_of_token ts) (drop k s) \<or>
            MatchString (map rx_of_token (ts @ [GChar CHR ''/'', GWild])) (drop k s)))"
      by (simp only: Cons.IH)
    also have "\<dots> \<longleftrightarrow>
        (\<exists>k \<in> {..length s}. newline \<notin> set (take k s) \<and>
           MatchString (map rx_of_token ts) (drop k s)) \<or>
        (\<exists>k \<in> {..length s}. newline \<notin> set (take k s) \<and>
           MatchString (map rx_of_token (ts @ [GChar CHR ''/'', GWild])) (drop k s))"
      by blast
    also have "\<dots> \<longleftrightarrow> MatchString (map rx_of_token (t # ts)) s \<or>
        MatchString (map rx_of_token ((t # ts) @ [GChar CHR ''/'', GWild])) s"
      by (simp only: GWild list.map rx_of_token.simps append_Cons MatchString_DotStar)
    finally show ?thesis .
  qed
qed

text \<open>
  What \<^verbatim>\<open>matchPattern\<close> computes: \<^verbatim>\<open>regexp.MustCompile\<close> never panics on the expression it is
  given, and the predicate is a match of the whole name against the tokens of the pattern,
  or, when the pattern ends in \<^verbatim>\<open>/...\<close>, against the tokens of the pattern without these four
  characters. The wildcard matches the substrings that hold no newline, since \<^verbatim>\<open>.\<close> in
  the expression does not match a newline.
\<close>

lemma matchPattern_glob:
  "\<exists>f. matchPattern pattern = Some f \<and>
     (\<forall>name. f name \<longleftrightarrow>
        glob_match [newline] (glob_tokens pattern) name \<or>
        HasSuffix pattern ''/...'' \<and>
        glob_match [newline] (glob_tokens (take (length pattern - 4) pattern)) name)"
proof -
  let ?ts = "glob_tokens pattern"
  let ?re = "concat (map re_of_token ?ts)"
  have re: "Replace (QuoteMeta pattern)
      [backslash, CHR ''.'', backslash, CHR ''.'', backslash, CHR ''.''] ''.*'' = ?re"
    using Replace_QuoteMeta [of pattern] by (simp only: dots3_def)
  show ?thesis
  proof (cases "HasSuffix pattern ''/...''")
    case False
    then have "\<not> HasSuffix ?re ''/.*''"
      by (simp only: re_suffix glob_tokens_suffix) simp
    then have "matchPattern pattern = Some (\<lambda>name. MatchString (map rx_of_token ?ts) name)"
      by (simp add: matchPattern_def re Let_def MustCompile_tokens)
    with False show ?thesis by (simp add: MatchString_tokens)
  next
    case True
    let ?q = "glob_tokens (take (length pattern - 4) pattern)"
    from glob_tokens_strip [OF True] have ts: "?ts = ?q @ [GChar CHR ''/'', GWild]" .
    then have suf: "HasSuffix ?re ''/.*''" by (simp only: re_suffix) blast
    have "take (length ?re - length ''/.*'') ?re = concat (map re_of_token ?q)"
      by (simp add: ts)
    with suf have "matchPattern pattern =
        Some (\<lambda>name. MatchString (map rx_of_token ?q @ [OptSlashDotStar]) name)"
      by (simp add: matchPattern_def re Let_def MustCompile_tokens_opt)
    moreover have "MatchString (map rx_of_token ?q @ [OptSlashDotStar]) name \<longleftrightarrow>
        glob_match [newline] ?ts name \<or> glob_match [newline] ?q name" for name
      by (simp only: MatchString_tokens_opt MatchString_tokens ts [symmetric]) blast
    ultimately show ?thesis using True by simp
  qed
qed

text \<open>The four examples: \<^verbatim>\<open>foo/...\<close> on \<^verbatim>\<open>foo\<close>, \<^verbatim>\<open>foo/bar\<close>, \<^verbatim>\<open>foobar\<close>, and \<^verbatim>\<open>a...b\<close> on \<^verbatim>\<open>axyzb\<close>.\<close>

lemma matchPattern_glob_examples:
  "map_option (\<lambda>f. map f [''foo'', ''foo/bar'', ''foobar'']) (matchPattern ''foo/...'')
     = Some [True, True, False]
   \<and> map_option (\<lambda>f. f ''axyzb'') (matchPattern ''a...b'') = Some True"
proof -
  from matchPattern_glob [of "''foo/...''"] obtain f where
    f: "matchPattern ''foo/...'' = Some f"
    and ff: "\<And>name. f name \<longleftrightarrow>
        glob_match [newline] (glob_tokens ''foo/...'') name \<or>
        HasSuffix ''foo/...'' ''/...'' \<and>
        glob_match [newline] (glob_tokens (take (length ''foo/...'' - 4) ''foo/...'')) name"
    by blast
  have 1: "f ''foo''" by (simp add: ff HasSuffix_def)
  have 2: "f ''foo/bar''" by (simp add: ff newline_def atMost_Suc)
  have 3: "\<not> f ''foobar''" by (simp add: ff HasSuffix_def)
  from matchPattern_glob [of "''a...b''"] obtain g where
    g: "matchPattern ''a...b'' = Some g"
    and gg: "\<And>name. g name \<longleftrightarrow>
        glob_match [newline] (glob_tokens ''a...b'') name \<or>
        HasSuffix ''a...b'' ''/...'' \<and>
        glob_match [newline] (glob_tokens (take (length ''a...b'' - 4) ''a...b'')) name"
    by blast
  have 4: "g ''axyzb''" by (simp add: gg newline_def atMost_Suc)
  from f 1 2 3 g 4 show ?thesis by simp
qed

text \<open>
  C4 at a concrete input. The claim, like the comment of \<^verbatim>\<open>matchPattern\<close>, has \<^verbatim>\<open>...\<close> match any
  string, so the pattern \<^verbatim>\<open>a...b\<close> matches the name made of \<open>a\<close>, a newline and \<open>b\<close>. The
  predicate that \<^verbatim>\<open>matchPattern\<close> returns rejects that name: the wildcard is compiled to
  \<^verbatim>\<open>.*\<close> without the flag that lets \<^verbatim>\<open>.\<close> match a newline.
\<close>

theorem matchPattern_rejects_newline:
  "map_option (\<lambda>f. f [CHR ''a'', newline, CHR ''b'']) (matchPattern ''a...b'') = Some False
   \<and> glob_match [] (glob_tokens ''a...b'') [CHR ''a'', newline, CHR ''b'']"
  by (simp add: matchPattern_def QuoteMeta_def specialBytes_def backslash_def HasSuffix_def
      MustCompile_def newline_def atMost_Suc del: QuoteMeta_Cons)

end
